theory Spec2Isabelle
  imports Main "HOL-Library.Multiset"
begin

section \<open>Constants of sshell.c\<close>

definition CMDLINE_MAX :: nat where "CMDLINE_MAX = 512"
definition TOKEN_MAX :: nat where "TOKEN_MAX = 32"
definition ARG_MAX' :: nat where "ARG_MAX' = 16"
definition PROCESS_MAX :: nat where "PROCESS_MAX = 8"

abbreviation (input) STDIN_FILENO :: nat where "STDIN_FILENO \<equiv> 0"
abbreviation (input) STDOUT_FILENO :: nat where "STDOUT_FILENO \<equiv> 1"
abbreviation (input) STDERR_FILENO :: nat where "STDERR_FILENO \<equiv> 2"

section \<open>Command-line tokenization\<close>

text \<open>
  A C string is modelled by the list of its characters before the terminating NUL; the
  end of the list is the terminator. The fixed arrays of the source (\<open>token_buf\<close>,
  \<open>tokens\<close>, \<open>argv\<close>, \<open>procs\<close>, \<open>pids\<close>, \<open>statuses\<close>) are modelled by lists, and their
  capacities are the constants above. The source checks one capacity, \<open>ARG_MAX\<close> (here
  \<open>ARG_MAX'\<close>), and the model checks it at the same place. An access beyond one of the
  others is undefined in C: a token of \<open>TOKEN_MAX\<close> characters or more, which
  \<open>read_next_token\<close> writes to \<open>token_buf\<close> and \<open>strcpy\<close> to a buffer of \<open>TOKEN_MAX\<close> bytes;
  an entry of \<open>tokens\<close> at an index from \<open>CMDLINE_MAX\<close> on; an entry of \<open>procs\<close>, \<open>pids\<close> or
  \<open>statuses\<close> at an index from \<open>PROCESS_MAX\<close> on. So is the call \<open>free(tokens)\<close> at line 357
  of \<open>parse_command\<close>, whose argument is an array of the stack frame and not a pointer
  that \<open>malloc\<close> returned. At each of these points the model stops with an outcome of its
  own and says nothing about what the program does afterwards.
\<close>

definition is_blank :: "char \<Rightarrow> bool" where
  "is_blank c \<longleftrightarrow> c = CHR '' '' \<or> c = CHR 0x09"

definition arg_char :: "char \<Rightarrow> bool" where
  \<comment> \<open>the loop condition of the \<open>default\<close> branch of \<open>read_next_token\<close>\<close>
  "arg_char c \<longleftrightarrow> c \<noteq> CHR '' '' \<and> c \<noteq> CHR 0x09 \<and> c \<noteq> CHR ''|'' \<and> c \<noteq> CHR ''>''"

text \<open>
  \<open>read_next_token\<close> skips blanks; at the terminator it returns \<open>NULL\<close> (here \<open>None\<close>);
  otherwise it returns the token written to \<open>buf\<close> and the new position of the iterator.
\<close>

definition read_next_token :: "string \<Rightarrow> (string \<times> string) option" where
  "read_next_token iter =
     (case dropWhile is_blank iter of
        [] \<Rightarrow> None
      | c # iter1 \<Rightarrow>
          if c = CHR ''|'' \<or> c = CHR ''>'' then
            (case iter1 of
               [] \<Rightarrow> Some ([c], iter1)
             | a # iter2 \<Rightarrow> if a = CHR ''&'' then Some ([c, a], iter2) else Some ([c], iter1))
          else Some (c # takeWhile arg_char iter1, dropWhile arg_char iter1))"

lemma read_next_token_shorter:
  "read_next_token iter = Some (tok, iter') \<Longrightarrow> length iter' < length iter"
proof -
  assume a: "read_next_token iter = Some (tok, iter')"
  have le: "length (dropWhile is_blank iter) \<le> length iter"
    by (rule length_dropWhile_le)
  show ?thesis
  proof (cases "dropWhile is_blank iter")
    case Nil
    with a show ?thesis by (simp add: read_next_token_def)
  next
    case (Cons c iter1)
    have d: "length (dropWhile arg_char iter1) \<le> length iter1"
      by (rule length_dropWhile_le)
    from a Cons have "length iter' \<le> length iter1"
      using d by (auto simp: read_next_token_def split: if_splits list.splits)
    with le Cons show ?thesis by simp
  qed
qed

text \<open>
  A token pointer is \<open>NULL\<close> (the terminator of the token array) or points to a string;
  \<open>token[0]\<close> of an empty string is the NUL character.
\<close>

definition first_char :: "string \<Rightarrow> char" where
  "first_char s = (case s of [] \<Rightarrow> CHR 0x00 | c # _ \<Rightarrow> c)"

definition is_arg :: "string option \<Rightarrow> bool" where
  "is_arg token =
     (case token of None \<Rightarrow> False
      | Some s \<Rightarrow> first_char s \<noteq> CHR ''>'' \<and> first_char s \<noteq> CHR ''|'')"

definition is_pipe_token :: "string option \<Rightarrow> bool" where
  "is_pipe_token token = (case token of None \<Rightarrow> False | Some s \<Rightarrow> first_char s = CHR ''|'')"

definition is_out_redirect_token :: "string option \<Rightarrow> bool" where
  "is_out_redirect_token token =
     (case token of None \<Rightarrow> False | Some s \<Rightarrow> first_char s = CHR ''>'')"

definition peek :: "string list \<Rightarrow> string option" where
  \<comment> \<open>\<open>*tok_iter\<close>: the token under the iterator, \<open>NULL\<close> at the end of the array\<close>
  "peek tok_iter = (case tok_iter of [] \<Rightarrow> None | t # _ \<Rightarrow> Some t)"

definition second_char_set :: "string \<Rightarrow> bool" where
  \<comment> \<open>\<open>(bool) token[1]\<close> for an operator token: true exactly for \<open>|&\<close> and \<open>>&\<close>\<close>
  "second_char_set s = (case s of _ # _ # _ \<Rightarrow> True | _ \<Rightarrow> False)"

section \<open>The operating system as seen by the shell\<close>

text \<open>
  The shell process owns a descriptor table; \<open>pipe\<close> and \<open>open\<close> return the lowest
  unused descriptors below the descriptor limit and fail when there is none. Pipes are
  numbered in the order of their creation. The file system maps a path to the contents
  of the file; \<open>may_open\<close> says whether \<open>open(path, O_CREAT | O_WRONLY | O_TRUNC, 0644)\<close>
  is permitted. \<open>mallocs_left\<close> and \<open>forks_left\<close> say how many further calls of \<open>malloc\<close>
  and \<open>fork\<close> succeed; \<open>fork\<close> returns the successor of \<open>last_pid\<close>, so that process
  identifiers are positive and fresh. \<open>terminations\<close> lists the children that terminate,
  each with its wait status, in the order in which they terminate.
\<close>

datatype fobj = Stream nat | PipeRead nat | PipeWrite nat | OutFile string

type_synonym fdtable = "nat \<Rightarrow> fobj option"

record world =
  fdt :: fdtable
  fd_limit :: nat
  npipes :: nat
  files :: "string \<Rightarrow> string option"
  may_open :: "string \<Rightarrow> bool"
  mallocs_left :: nat
  forks_left :: nat
  last_pid :: nat
  terminations :: "(nat \<times> nat) list"

definition lowest_fd :: "fdtable \<Rightarrow> nat \<Rightarrow> nat option" where
  "lowest_fd t lim = find (\<lambda>n. t n = None) [0..<lim]"

definition sys_malloc :: "world \<Rightarrow> world option" where
  "sys_malloc w =
     (if mallocs_left w = 0 then None else Some (w\<lparr>mallocs_left := mallocs_left w - 1\<rparr>))"

definition sys_pipe :: "world \<Rightarrow> (world \<times> nat \<times> nat) option" where
  \<comment> \<open>\<open>pipe(pipe_fds)\<close>: the result is \<open>(pipe_fds[0], pipe_fds[1])\<close>, read end first\<close>
  "sys_pipe w =
     (case lowest_fd (fdt w) (fd_limit w) of
        None \<Rightarrow> None
      | Some r \<Rightarrow>
          (case lowest_fd ((fdt w)(r \<mapsto> PipeRead (npipes w))) (fd_limit w) of
             None \<Rightarrow> None
           | Some wr \<Rightarrow>
               Some (w\<lparr>fdt := (fdt w)(r \<mapsto> PipeRead (npipes w), wr \<mapsto> PipeWrite (npipes w)),
                        npipes := npipes w + 1\<rparr>, r, wr)))"

definition sys_open_trunc :: "world \<Rightarrow> string \<Rightarrow> (world \<times> nat) option" where
  \<comment> \<open>\<open>open(path, O_CREAT | O_WRONLY | O_TRUNC, 0644)\<close>; \<open>None\<close> is the result \<open>-1\<close>\<close>
  "sys_open_trunc w path =
     (case lowest_fd (fdt w) (fd_limit w) of
        None \<Rightarrow> None
      | Some fd \<Rightarrow>
          if may_open w path
          then Some (w\<lparr>fdt := (fdt w)(fd \<mapsto> OutFile path), files := (files w)(path \<mapsto> [])\<rparr>, fd)
          else None)"

definition sys_close :: "nat \<Rightarrow> fdtable \<Rightarrow> fdtable" where
  "sys_close fd t = t(fd := None)"

definition sys_dup2 :: "nat \<Rightarrow> nat \<Rightarrow> fdtable \<Rightarrow> fdtable option" where
  \<comment> \<open>\<open>dup2(oldfd, newfd)\<close>; \<open>None\<close> is the result \<open>-1\<close> (\<open>oldfd\<close> is not open)\<close>
  "sys_dup2 oldfd newfd t =
     (case t oldfd of None \<Rightarrow> None | Some ob \<Rightarrow> Some (t(newfd \<mapsto> ob)))"

section \<open>Command-line parsing\<close>

record process =
  argv :: "string list"
  fd_in :: nat
  fd_out :: nat
  fd_err :: nat

text \<open>
  How a call of \<open>parse_command\<close> ends when it does not reach \<open>return 0\<close>. The first six are
  the return value \<open>-1\<close>; they differ in the message that \<open>error\<close> prints to the standard
  error stream, and \<open>NoCommand\<close> is the return at line 304, which prints nothing.
  \<open>MallocExit\<close> and \<open>PipeExit\<close> are not returns: the shell process exits
  (\<open>exit(EXIT_FAILURE)\<close> and \<open>exit_with_sys_err\<close>). The last four are the points of
  undefined behaviour: \<open>TokenBufOverrun\<close> (a token does not fit \<open>token_buf\<close>),
  \<open>TokensOverrun\<close> (a write to \<open>tokens\<close> beyond its end), \<open>ProcsOverrun\<close> (a write to
  \<open>procs\<close> beyond its end) and \<open>InvalidFree\<close> (the call \<open>free(tokens)\<close>).
\<close>

datatype error =
    NoCommand
  | MissingCommand
  | TooManyArguments
  | NoOutputFile
  | CannotOpenOutputFile
  | MislocatedRedirection
  | MallocExit
  | PipeExit
  | TokenBufOverrun
  | TokensOverrun
  | ProcsOverrun
  | InvalidFree

definition returns_failure :: "error \<Rightarrow> bool" where
  \<comment> \<open>\<open>parse_command\<close> returns \<open>-1\<close> to \<open>main\<close>\<close>
  "returns_failure e =
     (case e of
        NoCommand \<Rightarrow> True
      | MissingCommand \<Rightarrow> True
      | TooManyArguments \<Rightarrow> True
      | NoOutputFile \<Rightarrow> True
      | CannotOpenOutputFile \<Rightarrow> True
      | MislocatedRedirection \<Rightarrow> True
      | _ \<Rightarrow> False)"

definition error_message :: "error \<Rightarrow> string option" where
  \<comment> \<open>what \<open>error\<close> prints after \<open>Error: \<close>, if it is called\<close>
  "error_message e =
     (case e of
        MissingCommand \<Rightarrow> Some ''missing command''
      | TooManyArguments \<Rightarrow> Some ''too many process arguments''
      | NoOutputFile \<Rightarrow> Some ''no output file''
      | CannotOpenOutputFile \<Rightarrow> Some ''cannot open output file''
      | MislocatedRedirection \<Rightarrow> Some ''mislocated output redirection''
      | _ \<Rightarrow> None)"

text \<open>
  \<open>read_tokens\<close>; \<open>k\<close> is the index in \<open>tokens\<close> of the next entry, so that
  \<open>read_tokens 0\<close> is the call of the function. In each iteration \<open>read_next_token\<close>
  writes the characters of the token and a NUL to \<open>token_buf\<close>, which has \<open>TOKEN_MAX\<close>
  bytes; then \<open>*tokens = malloc(TOKEN_MAX)\<close> stores to \<open>tokens[k]\<close>, and the shell exits if
  the result is \<open>NULL\<close>; \<open>strcpy\<close> copies the token. After the loop the terminator is
  stored to \<open>tokens[k]\<close>. The result is the world after the allocations and the token
  array.
\<close>

function read_tokens :: "nat \<Rightarrow> world \<Rightarrow> string \<Rightarrow> error + (world \<times> string list)" where
  "read_tokens k w cmdline =
     (case read_next_token cmdline of
        None \<Rightarrow> if CMDLINE_MAX \<le> k then Inl TokensOverrun else Inr (w, [])
      | Some (token_buf, cmdline') \<Rightarrow>
          if TOKEN_MAX \<le> length token_buf then Inl TokenBufOverrun
          else if CMDLINE_MAX \<le> k then Inl TokensOverrun
          else
            (case sys_malloc w of
               None \<Rightarrow> Inl MallocExit
             | Some w1 \<Rightarrow>
                 (case read_tokens (Suc k) w1 cmdline' of
                    Inl e \<Rightarrow> Inl e
                  | Inr (w2, tokens) \<Rightarrow> Inr (w2, token_buf # tokens))))"
  by pat_completeness auto
termination
  by (relation "measure (\<lambda>(k, w, cmdline). length cmdline)")
     (auto simp: read_next_token_shorter)

declare read_tokens.simps [simp del]

text \<open>
  The loop of \<open>read_argv\<close>: the arguments read so far are \<open>argv[0..i-1]\<close>, so \<open>i\<close> is
  their number. \<open>argv\<close> has \<open>ARG_MAX + 1\<close> entries, so the terminator \<open>argv[i]\<close> fits.
\<close>

fun read_args :: "string list \<Rightarrow> string list \<Rightarrow> error + (string list \<times> string list)" where
  "read_args args [] = Inr (args, [])"
| "read_args args (t # token_iter) =
     (if is_arg (Some t) then
        (if length args = ARG_MAX' then Inl TooManyArguments
         else read_args (args @ [t]) token_iter)
      else Inr (args, t # token_iter))"

definition read_argv :: "string list \<Rightarrow> error + (string list \<times> string list)" where
  "read_argv token_iter =
     (case read_args [] token_iter of
        Inl e \<Rightarrow> Inl e
      | Inr (args, token_iter') \<Rightarrow>
          if args = [] then Inl MissingCommand else Inr (args, token_iter'))"

definition pipe_procs :: "world \<Rightarrow> bool \<Rightarrow> (world \<times> nat \<times> nat \<times> nat) option" where
  \<comment> \<open>the result is \<open>(src->fd_out, src->fd_err, dest->fd_in)\<close>; \<open>None\<close> is \<open>exit_with_sys_err\<close>\<close>
  "pipe_procs w redirect_err =
     (case sys_pipe w of
        None \<Rightarrow> None
      | Some (w', r, wr) \<Rightarrow> Some (w', wr, if redirect_err then wr else STDERR_FILENO, r))"

definition redirect_proc_out :: "world \<Rightarrow> string \<Rightarrow> bool \<Rightarrow> (world \<times> nat \<times> nat) option" where
  \<comment> \<open>the result is \<open>(proc->fd_out, proc->fd_err)\<close>; \<open>None\<close> is the return value \<open>-1\<close>\<close>
  "redirect_proc_out w out_file_path redirect_err =
     (case sys_open_trunc w out_file_path of
        None \<Rightarrow> None
      | Some (w', fd) \<Rightarrow> Some (w', fd, if redirect_err then fd else STDERR_FILENO))"

lemma read_args_length:
  "read_args args toks = Inr (args', rest) \<Longrightarrow> length args' + length rest = length args + length toks"
  by (induction toks arbitrary: args) (auto split: if_splits)

lemma read_argv_shorter:
  "read_argv toks = Inr (args, rest) \<Longrightarrow> length rest < length toks"
  by (cases args) (auto simp: read_argv_def split: sum.splits if_splits dest!: read_args_length)

text \<open>
  The \<open>while (true)\<close> loop of \<open>parse_command\<close>. The process under construction is
  \<open>procs[i]\<close>; its \<open>fd_in\<close> is already set (by line 317 or by \<open>pipe_procs\<close>), so the loop
  carries it as \<open>cur_in\<close>. At a pipe token, \<open>procs[++i] = malloc(...)\<close> stores to the entry
  \<open>i + 1\<close> of \<open>procs\<close>, which \<open>main\<close> declares with \<open>PROCESS_MAX\<close> entries. The result on
  \<open>break\<close> is the list of the processes from \<open>procs[i]\<close> on that are complete (all but the
  last process), the arguments and the input descriptor of the last process, and the
  token iterator.
\<close>

function parse_stages ::
  "world \<Rightarrow> nat \<Rightarrow> nat \<Rightarrow> string list \<Rightarrow>
     world \<times> (error + (process list \<times> string list \<times> nat \<times> string list))"
where
  "parse_stages w i cur_in tok_iter =
     (case read_argv tok_iter of
        Inl e \<Rightarrow> (w, Inl e)
      | Inr (args, tok_iter1) \<Rightarrow>
          if \<not> is_pipe_token (peek tok_iter1) then (w, Inr ([], args, cur_in, tok_iter1))
          else if PROCESS_MAX \<le> Suc i then (w, Inl ProcsOverrun)
          else
            (case sys_malloc w of
               None \<Rightarrow> (w, Inl MallocExit)
             | Some w1 \<Rightarrow>
                 (case pipe_procs w1 (second_char_set (hd tok_iter1)) of
                    None \<Rightarrow> (w1, Inl PipeExit)
                  | Some (w2, out, err, next_in) \<Rightarrow>
                      (case parse_stages w2 (Suc i) next_in (tl tok_iter1) of
                         (w3, Inl e) \<Rightarrow> (w3, Inl e)
                       | (w3, Inr (ps, last_args, last_in, tok_iter2)) \<Rightarrow>
                           (w3, Inr (\<lparr>argv = args, fd_in = cur_in, fd_out = out, fd_err = err\<rparr> # ps,
                                     last_args, last_in, tok_iter2))))))"
  by pat_completeness auto
termination
  by (relation "measure (\<lambda>(w, i, cur_in, tok_iter). length tok_iter)")
     (auto dest!: read_argv_shorter)

declare parse_stages.simps [simp del]

text \<open>
  Lines 337 to 355 of \<open>parse_command\<close>, after the loop: the output of the last process
  \<open>procs[i]\<close>, whose arguments and input descriptor the loop has left, and the terminator
  \<open>procs[i + 1] = NULL\<close>. \<open>ps\<close> are the processes before the last one, so \<open>i\<close> is their
  number.
\<close>

definition terminate_procs :: "world \<Rightarrow> process list \<Rightarrow> world \<times> (error + process list)" where
  \<comment> \<open>line 355, for the processes \<open>procs[0..i]\<close>\<close>
  "terminate_procs w procs =
     (if PROCESS_MAX \<le> length procs then (w, Inl ProcsOverrun) else (w, Inr procs))"

definition finish_command ::
  "world \<Rightarrow> process list \<Rightarrow> string list \<Rightarrow> nat \<Rightarrow> string list \<Rightarrow> world \<times> (error + process list)"
where
  "finish_command w ps args cur_in tok_iter =
     (if is_out_redirect_token (peek tok_iter) then
        (case peek (tl tok_iter) of
           None \<Rightarrow> (w, Inl NoOutputFile)
         | Some out_file_path \<Rightarrow>
             (case redirect_proc_out w out_file_path (second_char_set (hd tok_iter)) of
                None \<Rightarrow> (w, Inl CannotOpenOutputFile)
              | Some (w', out, err) \<Rightarrow>
                  if is_pipe_token (peek (tl (tl tok_iter)))
                  then (w', Inl MislocatedRedirection)
                  else terminate_procs w' (ps @ [\<lparr>argv = args, fd_in = cur_in,
                                                  fd_out = out, fd_err = err\<rparr>])))
      else terminate_procs w (ps @ [\<lparr>argv = args, fd_in = cur_in,
                                     fd_out = STDOUT_FILENO, fd_err = STDERR_FILENO\<rparr>]))"

text \<open>
  \<open>parse_wiring\<close> is \<open>parse_command\<close> from its first line to line 355: the result
  \<open>Inr procs\<close> says that the function has reached line 357 and what the array \<open>procs\<close>
  holds there. \<open>parse_command\<close> is the whole function: at line 357 it calls
  \<open>free(tokens)\<close>, so it has no path to \<open>return 0\<close> that is free of undefined behaviour.
\<close>

definition parse_wiring :: "world \<Rightarrow> string \<Rightarrow> world \<times> (error + process list)" where
  "parse_wiring w cmdline =
     (case read_tokens 0 w cmdline of
        Inl e \<Rightarrow> (w, Inl e)
      | Inr (wt, tokens) \<Rightarrow>
          if peek tokens = None then (wt, Inl NoCommand)
          else
            (case sys_malloc wt of
               None \<Rightarrow> (wt, Inl MallocExit)
             | Some w1 \<Rightarrow>
                 (case parse_stages w1 0 STDIN_FILENO tokens of
                    (w2, Inl e) \<Rightarrow> (w2, Inl e)
                  | (w2, Inr (ps, args, cur_in, tok_iter)) \<Rightarrow>
                      finish_command w2 ps args cur_in tok_iter)))"

definition parse_command :: "world \<Rightarrow> string \<Rightarrow> world \<times> (error + process list)" where
  "parse_command w cmdline =
     (case parse_wiring w cmdline of
        (w', Inl e) \<Rightarrow> (w', Inl e)
      | (w', Inr procs) \<Rightarrow> (w', Inl InvalidFree))"

section \<open>Process execution\<close>

definition close_nonstd_fds :: "process \<Rightarrow> fdtable \<Rightarrow> fdtable" where
  "close_nonstd_fds proc t =
     (let t1 = (if fd_in proc \<noteq> STDIN_FILENO then sys_close (fd_in proc) t else t);
          t2 = (if fd_out proc \<noteq> STDOUT_FILENO then sys_close (fd_out proc) t1 else t1)
      in if fd_err proc \<noteq> STDERR_FILENO then sys_close (fd_err proc) t2 else t2)"

text \<open>
  What becomes of a child: either a \<open>dup2\<close> fails and the child exits, or the child calls
  \<open>execvp(argv[0], argv)\<close> with the descriptor table it has at that moment.
\<close>

datatype child = Dup2Exit | Execvp fdtable "string list"

definition exec_proc :: "process \<Rightarrow> fdtable \<Rightarrow> child" where
  "exec_proc proc t =
     (case sys_dup2 (fd_in proc) STDIN_FILENO t of
        None \<Rightarrow> Dup2Exit
      | Some t1 \<Rightarrow>
          (case sys_dup2 (fd_out proc) STDOUT_FILENO t1 of
             None \<Rightarrow> Dup2Exit
           | Some t2 \<Rightarrow>
               (case sys_dup2 (fd_err proc) STDERR_FILENO t2 of
                  None \<Rightarrow> Dup2Exit
                | Some t3 \<Rightarrow> Execvp (close_nonstd_fds proc t3) (argv proc))))"

text \<open>
  How a call of \<open>run_procs\<close> ends when it does not return: \<open>fork\<close> fails and the shell
  exits; an array is accessed beyond its end; a \<open>waitpid\<close> never returns.
\<close>

datatype stop = ForkExit | ArrayOverrun | Blocked

text \<open>
  The first loop of \<open>run_procs\<close>, at the index \<open>i\<close>, on the processes
  \<open>procs[i], procs[i+1], ...\<close> that are still to be forked. \<open>procs\<close> is the array of \<open>main\<close>,
  of \<open>PROCESS_MAX\<close> entries, so the test \<open>procs[i]\<close> of the loop reads beyond its end from
  \<open>i = PROCESS_MAX\<close> on, be it a process or the terminator (and \<open>pids[i]\<close> lies beyond the
  end of \<open>pids\<close> from the same index on). The child starts with a
  copy of the parent's descriptor table, closes the descriptors of the processes after
  index \<open>i\<close> and runs \<open>exec_proc\<close>; the parent closes the descriptors of \<open>procs[i]\<close> and saves
  the child's pid.
\<close>

fun spawn_children ::
  "nat \<Rightarrow> world \<Rightarrow> process list \<Rightarrow> stop + (world \<times> (nat \<times> child) list)" where
  "spawn_children i w [] = (if PROCESS_MAX \<le> i then Inl ArrayOverrun else Inr (w, []))"
| "spawn_children i w (proc # later) =
     (if PROCESS_MAX \<le> i then Inl ArrayOverrun
      else if forks_left w = 0 then Inl ForkExit
      else
        (let pid = Suc (last_pid w);
             kid = exec_proc proc (fold close_nonstd_fds later (fdt w));
             w1 = w\<lparr>fdt := close_nonstd_fds proc (fdt w), last_pid := pid,
                     forks_left := forks_left w - 1\<rparr>
         in (case spawn_children (Suc i) w1 later of
               Inl s \<Rightarrow> Inl s
             | Inr (w2, kids) \<Rightarrow> Inr (w2, (pid, kid) # kids))))"

definition WEXITSTATUS :: "nat \<Rightarrow> nat" where
  "WEXITSTATUS status = (status div 256) mod 256"

definition sys_waitpid :: "nat \<Rightarrow> (nat \<times> nat) list \<Rightarrow> (nat \<times> (nat \<times> nat) list) option" where
  \<comment> \<open>\<open>waitpid(pid, &status, 0)\<close> returns once the child has terminated, and reaps it;
      \<open>None\<close>: the child never terminates and the call does not return\<close>
  "sys_waitpid pid evts =
     (case map_of evts pid of
        None \<Rightarrow> None
      | Some status \<Rightarrow> Some (status, remove1 (pid, status) evts))"

text \<open>
  The second loop of \<open>run_procs\<close>, \<open>while (i--)\<close>: the body runs with the decremented
  index. \<open>statuses\<close> holds the entries \<open>statuses[i..N]\<close> written so far, the sentinel
  last.
\<close>

fun wait_children ::
  "nat \<Rightarrow> nat list \<Rightarrow> int list \<Rightarrow> (nat \<times> nat) list \<Rightarrow> (int list \<times> (nat \<times> nat) list) option"
where
  "wait_children 0 pids statuses evts = Some (statuses, evts)"
| "wait_children (Suc i) pids statuses evts =
     (case sys_waitpid (pids ! i) evts of
        None \<Rightarrow> None
      | Some (status, evts') \<Rightarrow>
          wait_children i pids (int (WEXITSTATUS status) # statuses) evts')"

text \<open>
  \<open>run_procs\<close>. After the first loop \<open>i\<close> is the number of children, and the sentinel is
  stored to \<open>statuses[i]\<close>; \<open>statuses\<close> is the array of \<open>main\<close>, of \<open>PROCESS_MAX\<close> entries.
  The function returns the world it leaves, the children it has forked and the list
  \<open>statuses[0..N]\<close>.
\<close>

definition run_procs ::
  "world \<Rightarrow> process list \<Rightarrow> stop + (world \<times> (nat \<times> child) list \<times> int list)" where
  "run_procs w procs =
     (case spawn_children 0 w procs of
        Inl s \<Rightarrow> Inl s
      | Inr (w1, kids) \<Rightarrow>
          if PROCESS_MAX \<le> length kids then Inl ArrayOverrun
          else
            (case wait_children (length kids) (map fst kids) [- 1] (terminations w1) of
               None \<Rightarrow> Inl Blocked
             | Some (statuses, evts) \<Rightarrow> Inr (w1\<lparr>terminations := evts\<rparr>, kids, statuses)))"

section \<open>The main loop\<close>

text \<open>
  One iteration of the loop of \<open>main\<close>, from \<open>parse_command\<close> to the choice between the
  builtins and \<open>run_procs\<close>. \<open>Rejected e\<close>: \<open>parse_command\<close> has returned \<open>-1\<close> and \<open>main\<close>
  continues with the next line. \<open>Stopped e\<close>: the shell has exited in \<open>parse_command\<close>, or
  its behaviour is undefined from there on. \<open>dispatch\<close> is the choice of lines 499 to
  517, made after \<open>parse_command\<close> has returned \<open>0\<close>: the bodies of the builtins are not
  modelled, only which of them is called; \<open>RunProcs procs\<close> is the call
  \<open>run_procs(procs, statuses)\<close>, and \<open>NullArg\<close> stands for the read of
  \<open>procs[0]->argv[0]\<close> when there is no such argument.
\<close>

datatype route =
    Rejected error
  | Stopped error
  | NullArg
  | BuiltinExit
  | BuiltinPwd
  | BuiltinCd "string option"
  | BuiltinSls
  | RunProcs "process list"

definition first_arg :: "process list \<Rightarrow> string option" where
  "first_arg procs = (case procs of [] \<Rightarrow> None | p # _ \<Rightarrow> peek (argv p))"

definition dispatch :: "process list \<Rightarrow> route" where
  "dispatch procs =
     (case first_arg procs of
        None \<Rightarrow> NullArg
      | Some a \<Rightarrow>
          if a = ''exit'' then BuiltinExit
          else if a = ''pwd'' then BuiltinPwd
          else if a = ''cd'' then BuiltinCd (peek (tl (argv (hd procs))))
          else if a = ''sls'' then BuiltinSls
          else RunProcs procs)"

definition main_iteration :: "world \<Rightarrow> string \<Rightarrow> world \<times> route" where
  "main_iteration w cmdline =
     (case parse_command w cmdline of
        (w1, Inl e) \<Rightarrow> (w1, if returns_failure e then Rejected e else Stopped e)
      | (w1, Inr procs) \<Rightarrow> (w1, dispatch procs))"

text \<open>The loop of \<open>main\<close> that prints the statuses: it stops at the sentinel.\<close>

definition reported :: "int list \<Rightarrow> int list" where
  "reported statuses = takeWhile (\<lambda>s. s \<noteq> - 1) statuses"

section \<open>A concrete world\<close>

text \<open>
  A shell with its three standard streams open, room for 32 descriptors, a file
  \<open>out.txt\<close>, and three children yet to terminate: 103 first, then 101, then 102.
\<close>

definition w0 :: world where
  "w0 = \<lparr>fdt = (\<lambda>n. if n < 3 then Some (Stream n) else None), fd_limit = 32, npipes = 0,
          files = (\<lambda>p. if p = ''out.txt'' then Some ''old contents'' else None),
          may_open = (\<lambda>p. True), mallocs_left = 64, forks_left = 16,
          last_pid = 100, terminations = [(103, 0), (101, 256), (102, 512)]\<rparr>"

section \<open>The tokens of a line\<close>

text \<open>
  \<open>tokens_of cmdline\<close> are the tokens that the calls of \<open>read_next_token\<close> in \<open>read_tokens\<close>
  find on a line, in their order, and \<open>store_tokens\<close> is what \<open>read_tokens\<close> does with each
  of them; \<open>read_tokens\<close> is the two together (\<open>read_tokens_store\<close>). The theorems below
  describe a line by its tokens.
\<close>

function tokens_of :: "string \<Rightarrow> string list" where
  "tokens_of cmdline =
     (case read_next_token cmdline of
        None \<Rightarrow> []
      | Some (token_buf, cmdline') \<Rightarrow> token_buf # tokens_of cmdline')"
  by pat_completeness auto
termination
  by (relation "measure length") (auto simp: read_next_token_shorter)

declare tokens_of.simps [simp del]

fun store_tokens :: "nat \<Rightarrow> world \<Rightarrow> string list \<Rightarrow> error + world" where
  "store_tokens k w [] = (if CMDLINE_MAX \<le> k then Inl TokensOverrun else Inr w)"
| "store_tokens k w (token_buf # later) =
     (if TOKEN_MAX \<le> length token_buf then Inl TokenBufOverrun
      else if CMDLINE_MAX \<le> k then Inl TokensOverrun
      else (case sys_malloc w of
              None \<Rightarrow> Inl MallocExit
            | Some w1 \<Rightarrow> store_tokens (Suc k) w1 later))"

lemma read_tokens_store:
  "read_tokens k w cmdline =
     (case store_tokens k w (tokens_of cmdline) of
        Inl e \<Rightarrow> Inl e
      | Inr w' \<Rightarrow> Inr (w', tokens_of cmdline))"
proof (induction k w cmdline rule: read_tokens.induct)
  case (1 k w cmdline)
  show ?case
  proof (cases "read_next_token cmdline")
    case None
    then show ?thesis
      by (simp add: read_tokens.simps [of k w cmdline] tokens_of.simps [of cmdline])
  next
    case (Some x)
    obtain tok rest where x: "x = (tok, rest)" by (cases x)
    have rt: "read_next_token cmdline = Some (tok, rest)" using Some x by simp
    have toks: "tokens_of cmdline = tok # tokens_of rest"
      by (simp add: tokens_of.simps [of cmdline] rt)
    show ?thesis
    proof (cases "TOKEN_MAX \<le> length tok \<or> CMDLINE_MAX \<le> k")
      case True
      then show ?thesis
        by (auto simp: read_tokens.simps [of k w cmdline] rt toks)
    next
      case False
      then have f: "\<not> TOKEN_MAX \<le> length tok" "\<not> CMDLINE_MAX \<le> k" by simp_all
      show ?thesis
      proof (cases "sys_malloc w")
        case None
        with f show ?thesis
          by (simp add: read_tokens.simps [of k w cmdline] rt toks)
      next
        case (Some w1)
        have "read_tokens (Suc k) w1 rest =
            (case store_tokens (Suc k) w1 (tokens_of rest) of
               Inl e \<Rightarrow> Inl e
             | Inr w' \<Rightarrow> Inr (w', tokens_of rest))"
          using "1.IH" [OF rt refl f Some] .
        with f Some show ?thesis
          by (simp add: read_tokens.simps [of k w cmdline] rt toks split: sum.splits)
      qed
    qed
  qed
qed

text \<open>\<open>parse_command\<close> up to line 355, in terms of the tokens of the line.\<close>

lemma parse_wiring_alt:
  "parse_wiring w cmdline =
     (let tokens = tokens_of cmdline in
      (case store_tokens 0 w tokens of
         Inl e \<Rightarrow> (w, Inl e)
       | Inr wt \<Rightarrow>
           if peek tokens = None then (wt, Inl NoCommand)
           else
             (case sys_malloc wt of
                None \<Rightarrow> (wt, Inl MallocExit)
              | Some w1 \<Rightarrow>
                  (case parse_stages w1 0 STDIN_FILENO tokens of
                     (w2, Inl e) \<Rightarrow> (w2, Inl e)
                   | (w2, Inr (ps, args, cur_in, tok_iter)) \<Rightarrow>
                       finish_command w2 ps args cur_in tok_iter))))"
  by (simp add: parse_wiring_def read_tokens_store Let_def split: sum.splits)

section \<open>Basic facts\<close>

lemma peek_simps [simp]: "peek [] = None" "peek (t # ts) = Some t"
  by (simp_all add: peek_def)

lemma token_kind_None [simp]:
  "\<not> is_arg None" "\<not> is_pipe_token None" "\<not> is_out_redirect_token None"
  by (simp_all add: is_arg_def is_pipe_token_def is_out_redirect_token_def)

lemma parse_stages_break:
  "read_argv toks = Inr (args, rest) \<Longrightarrow> \<not> is_pipe_token (peek rest) \<Longrightarrow>
     parse_stages w i cur_in toks = (w, Inr ([], args, cur_in, rest))"
  by (simp add: parse_stages.simps [of w i cur_in toks])

lemma parse_stages_error:
  "read_argv toks = Inl e \<Longrightarrow> parse_stages w i cur_in toks = (w, Inl e)"
  by (simp add: parse_stages.simps [of w i cur_in toks])

lemma parse_stages_overrun:
  "read_argv toks = Inr (args, p # rest) \<Longrightarrow> is_pipe_token (Some p) \<Longrightarrow>
     PROCESS_MAX \<le> Suc i \<Longrightarrow> parse_stages w i cur_in toks = (w, Inl ProcsOverrun)"
  by (simp add: parse_stages.simps [of w i cur_in toks])

lemma parse_stages_pipe:
  "read_argv toks = Inr (args, p # rest) \<Longrightarrow> is_pipe_token (Some p) \<Longrightarrow>
     Suc i < PROCESS_MAX \<Longrightarrow>
     parse_stages w i cur_in toks =
       (case sys_malloc w of
          None \<Rightarrow> (w, Inl MallocExit)
        | Some w1 \<Rightarrow>
            (case sys_pipe w1 of
               None \<Rightarrow> (w1, Inl PipeExit)
             | Some (w2, r, wr) \<Rightarrow>
                 (case parse_stages w2 (Suc i) r rest of
                    (w3, Inl e) \<Rightarrow> (w3, Inl e)
                  | (w3, Inr (ps, last_args, last_in, tok_iter2)) \<Rightarrow>
                      (w3, Inr (\<lparr>argv = args, fd_in = cur_in, fd_out = wr,
                                  fd_err = (if second_char_set p then wr else STDERR_FILENO)\<rparr> # ps,
                                last_args, last_in, tok_iter2)))))"
  by (simp add: parse_stages.simps [of w i cur_in toks] pipe_procs_def
      split: option.splits prod.splits sum.splits)

lemma is_pipe_peek: "is_pipe_token (peek rest) \<Longrightarrow> \<exists>p rest'. rest = p # rest' \<and> is_pipe_token (Some p)"
  by (cases rest) auto

text \<open>
  Induction on the iterations of the loop for a call that leaves the loop by \<open>break\<close>.
\<close>

lemma parse_stages_ok_induct [consumes 1, case_names Break Pipe]:
  assumes ok: "parse_stages w i cur_in toks = (w', Inr (ps, a, f, r))"
    and brk: "\<And>w i cur_in toks a r. read_argv toks = Inr (a, r) \<Longrightarrow> \<not> is_pipe_token (peek r) \<Longrightarrow>
                P w i cur_in toks w [] a cur_in r"
    and pip: "\<And>w i cur_in toks args p rest w1 w2 rd wr w' ps a f r.
                read_argv toks = Inr (args, p # rest) \<Longrightarrow> is_pipe_token (Some p) \<Longrightarrow>
                Suc i < PROCESS_MAX \<Longrightarrow>
                sys_malloc w = Some w1 \<Longrightarrow> sys_pipe w1 = Some (w2, rd, wr) \<Longrightarrow>
                parse_stages w2 (Suc i) rd rest = (w', Inr (ps, a, f, r)) \<Longrightarrow>
                P w2 (Suc i) rd rest w' ps a f r \<Longrightarrow>
                P w i cur_in toks w'
                  (\<lparr>argv = args, fd_in = cur_in, fd_out = wr,
                     fd_err = (if second_char_set p then wr else STDERR_FILENO)\<rparr> # ps) a f r"
  shows "P w i cur_in toks w' ps a f r"
  using ok
proof (induction "length toks" arbitrary: w i cur_in toks ps rule: less_induct)
  case less
  show ?case
  proof (cases "read_argv toks")
    case (Inl e)
    with less.prems show ?thesis by (simp add: parse_stages_error)
  next
    case (Inr x)
    obtain args rest where x: "x = (args, rest)" by (cases x)
    have ra: "read_argv toks = Inr (args, rest)" using Inr x by simp
    show ?thesis
    proof (cases "is_pipe_token (peek rest)")
      case False
      with less.prems ra show ?thesis
        using brk [OF ra False] by (simp add: parse_stages_break)
    next
      case True
      then obtain p rest' where rest: "rest = p # rest'" and pp: "is_pipe_token (Some p)"
        using is_pipe_peek by blast
      have ra': "read_argv toks = Inr (args, p # rest')" using ra rest by simp
      have shorter: "length rest' < length toks"
        using read_argv_shorter [OF ra'] by simp
      have room: "Suc i < PROCESS_MAX"
      proof (rule ccontr)
        assume "\<not> Suc i < PROCESS_MAX"
        then have "PROCESS_MAX \<le> Suc i" by simp
        from parse_stages_overrun [OF ra' pp this] less.prems show False by simp
      qed
      from less.prems obtain w1 w2 rd wr ps' where
        m: "sys_malloc w = Some w1" and pi: "sys_pipe w1 = Some (w2, rd, wr)"
        and rec: "parse_stages w2 (Suc i) rd rest' = (w', Inr (ps', a, f, r))"
        and ps: "ps = \<lparr>argv = args, fd_in = cur_in, fd_out = wr,
                     fd_err = (if second_char_set p then wr else STDERR_FILENO)\<rparr> # ps'"
        unfolding parse_stages_pipe [OF ra' pp room]
        by (auto split: option.splits prod.splits sum.splits)
      have "P w2 (Suc i) rd rest' w' ps' a f r"
        using less.hyps [OF shorter rec] .
      then show ?thesis
        unfolding ps using pip [OF ra' pp room m pi rec] by simp
    qed
  qed
qed

text \<open>
  \<open>parse_command\<close> never returns \<open>0\<close>: when it does not fail before, it ends in
  \<open>free(tokens)\<close>.
\<close>

lemma parse_command_wiring:
  "parse_command w cmdline =
     (fst (parse_wiring w cmdline),
      case snd (parse_wiring w cmdline) of Inl e \<Rightarrow> Inl e | Inr procs \<Rightarrow> Inl InvalidFree)"
  by (simp add: parse_command_def split: prod.splits sum.splits)

lemma main_iteration_world: "fst (main_iteration w cmdline) = fst (parse_wiring w cmdline)"
  by (auto simp: main_iteration_def parse_command_def split: prod.splits sum.splits)

lemma main_iteration_rejected:
  "snd (parse_wiring w cmdline) = Inl e \<Longrightarrow> returns_failure e \<Longrightarrow>
     snd (main_iteration w cmdline) = Rejected e"
  by (cases "parse_wiring w cmdline") (simp add: main_iteration_def parse_command_def)

text \<open>The two ways in which \<open>parse_command\<close> reaches line 357.\<close>

lemma parse_wiring_ok_cases:
  assumes "parse_wiring w cmdline = (w', Inr procs)"
  obtains (Plain) w0 w1 ps a f r where
      "store_tokens 0 w (tokens_of cmdline) = Inr w0" "sys_malloc w0 = Some w1"
      "parse_stages w1 0 STDIN_FILENO (tokens_of cmdline) = (w', Inr (ps, a, f, r))"
      "\<not> is_out_redirect_token (peek r)"
      "procs = ps @ [\<lparr>argv = a, fd_in = f, fd_out = STDOUT_FILENO, fd_err = STDERR_FILENO\<rparr>]"
      "length procs < PROCESS_MAX"
  | (Redirect) w0 w1 w2 ps a f rt path rest fd where
      "store_tokens 0 w (tokens_of cmdline) = Inr w0" "sys_malloc w0 = Some w1"
      "parse_stages w1 0 STDIN_FILENO (tokens_of cmdline) = (w2, Inr (ps, a, f, rt # path # rest))"
      "is_out_redirect_token (Some rt)" "sys_open_trunc w2 path = Some (w', fd)"
      "\<not> is_pipe_token (peek rest)"
      "procs = ps @ [\<lparr>argv = a, fd_in = f, fd_out = fd,
                       fd_err = (if second_char_set rt then fd else STDERR_FILENO)\<rparr>]"
      "length procs < PROCESS_MAX"
proof -
  from assms obtain w0 where al: "store_tokens 0 w (tokens_of cmdline) = Inr w0"
    by (auto simp: parse_wiring_alt Let_def split: sum.splits)
  from assms al obtain w1 where m: "sys_malloc w0 = Some w1"
    by (auto simp: parse_wiring_alt Let_def split: option.splits if_splits)
  from assms al m obtain w2 ps a f r where
    st: "parse_stages w1 0 STDIN_FILENO (tokens_of cmdline) = (w2, Inr (ps, a, f, r))"
    by (auto simp: parse_wiring_alt Let_def split: option.splits if_splits prod.splits sum.splits)
  from assms al m st have fin: "finish_command w2 ps a f r = (w', Inr procs)"
    by (auto simp: parse_wiring_alt Let_def split: option.splits if_splits)
  show thesis
  proof (cases "is_out_redirect_token (peek r)")
    case False
    with fin have "w' = w2"
      and pr: "procs = ps @ [\<lparr>argv = a, fd_in = f, fd_out = STDOUT_FILENO, fd_err = STDERR_FILENO\<rparr>]"
      and len: "length procs < PROCESS_MAX"
      by (auto simp: finish_command_def terminate_procs_def split: if_splits)
    with Plain [OF al m _ False pr len] st show thesis by simp
  next
    case True
    then obtain rt r1 where r: "r = rt # r1" and rt: "is_out_redirect_token (Some rt)"
      by (cases r) auto
    from fin True r obtain path rest where r1: "r1 = path # rest"
      by (cases r1) (auto simp: finish_command_def split: option.splits if_splits)
    from fin True r r1 obtain fd where
      op: "sys_open_trunc w2 path = Some (w', fd)" and np: "\<not> is_pipe_token (peek rest)"
      and pr: "procs = ps @ [\<lparr>argv = a, fd_in = f, fd_out = fd,
                       fd_err = (if second_char_set rt then fd else STDERR_FILENO)\<rparr>]"
      and len: "length procs < PROCESS_MAX"
      by (auto simp: finish_command_def terminate_procs_def redirect_proc_out_def
          split: option.splits if_splits prod.splits)
    show thesis
      using Redirect [OF al m _ rt op np pr len] st r r1 by simp
  qed
qed

section \<open>The children of \<open>run_procs\<close>\<close>

lemma spawn_children_kids:
  "spawn_children k w procs = Inr (w', kids) \<Longrightarrow> i < length procs \<Longrightarrow>
     kids ! i =
       (Suc (last_pid w) + i,
        exec_proc (procs ! i)
          (fold close_nonstd_fds (drop (Suc i) procs)
             (fold close_nonstd_fds (take i procs) (fdt w))))"
proof (induction procs arbitrary: k w kids i)
  case Nil
  then show ?case by simp
next
  case (Cons proc later)
  let ?w1 = "w\<lparr>fdt := close_nonstd_fds proc (fdt w), last_pid := Suc (last_pid w),
                 forks_left := forks_left w - 1\<rparr>"
  from Cons.prems(1) obtain kids' where
    rec: "spawn_children (Suc k) ?w1 later = Inr (w', kids')"
    and kids: "kids = (Suc (last_pid w), exec_proc proc (fold close_nonstd_fds later (fdt w))) # kids'"
    by (auto simp: Let_def split: if_splits sum.splits)
  show ?case
  proof (cases i)
    case 0
    then show ?thesis by (simp add: kids)
  next
    case (Suc j)
    with Cons.prems(2) have "j < length later" by simp
    from Cons.IH [OF rec this] show ?thesis
      by (simp add: kids Suc)
  qed
qed

lemma spawn_children_length:
  "spawn_children k w procs = Inr (w', kids) \<Longrightarrow>
     length kids = length procs \<and> k + length procs < PROCESS_MAX"
proof (induction procs arbitrary: k w kids)
  case Nil
  then show ?case by (auto split: if_splits)
next
  case (Cons proc later)
  let ?w1 = "w\<lparr>fdt := close_nonstd_fds proc (fdt w), last_pid := Suc (last_pid w),
                 forks_left := forks_left w - 1\<rparr>"
  from Cons.prems(1) obtain kids' where
    rec: "spawn_children (Suc k) ?w1 later = Inr (w', kids')"
    and kids: "kids = (Suc (last_pid w), exec_proc proc (fold close_nonstd_fds later (fdt w))) # kids'"
    by (auto simp: Let_def split: if_splits sum.splits)
  from Cons.IH [OF rec] show ?case by (simp add: kids)
qed

lemma spawn_children_succeeds:
  "k + length procs < PROCESS_MAX \<Longrightarrow> length procs \<le> forks_left w \<Longrightarrow>
     \<exists>w' kids. spawn_children k w procs = Inr (w', kids) \<and> terminations w' = terminations w"
proof (induction procs arbitrary: k w)
  case Nil
  then show ?case by simp
next
  case (Cons proc later)
  let ?w1 = "w\<lparr>fdt := close_nonstd_fds proc (fdt w), last_pid := Suc (last_pid w),
                 forks_left := forks_left w - 1\<rparr>"
  from Cons.prems have "Suc k + length later < PROCESS_MAX" "length later \<le> forks_left ?w1"
    by simp_all
  from Cons.IH [OF this] obtain w' kids where
    "spawn_children (Suc k) ?w1 later = Inr (w', kids)" "terminations w' = terminations w"
    by auto
  with Cons.prems show ?case by (simp add: Let_def)
qed

section \<open>Lines of well-formed stages\<close>

text \<open>
  The words in which the theorems on parse errors describe a line and the shell that
  reads it. \<open>stage_args args\<close>: \<open>args\<close> are the tokens of one stage, 1 to 16 argument
  tokens. \<open>piped groups\<close> is the token list of stages that are each followed by a pipe
  token, and \<open>piped_ok\<close> says that each of them is well formed. \<open>tokens_fit\<close>: every token
  fits \<open>token_buf\<close> with its terminator, and the tokens fit \<open>tokens\<close> with theirs.
  \<open>free_fds w\<close> is the number of descriptors that the shell can still open.
  \<open>same_processes w w'\<close>: between the two worlds no process was forked or reaped.
\<close>

definition stage_args :: "string list \<Rightarrow> bool" where
  "stage_args args \<longleftrightarrow>
     args \<noteq> [] \<and> length args \<le> ARG_MAX' \<and> list_all (\<lambda>t. is_arg (Some t)) args"

fun piped :: "(string list \<times> string) list \<Rightarrow> string list" where
  "piped [] = []"
| "piped ((args, p) # groups) = args @ p # piped groups"

definition piped_ok :: "(string list \<times> string) list \<Rightarrow> bool" where
  "piped_ok groups = list_all (\<lambda>(args, p). stage_args args \<and> is_pipe_token (Some p)) groups"

definition tokens_fit :: "string list \<Rightarrow> bool" where
  "tokens_fit toks \<longleftrightarrow>
     list_all (\<lambda>t. length t < TOKEN_MAX) toks \<and> length toks < CMDLINE_MAX"

definition free_fds :: "world \<Rightarrow> nat" where
  "free_fds w = length (filter (\<lambda>n. fdt w n = None) [0..<fd_limit w])"

definition same_processes :: "world \<Rightarrow> world \<Rightarrow> bool" where
  \<comment> \<open>nothing was forked or reaped, and the limits are the same\<close>
  "same_processes w w' \<longleftrightarrow>
     last_pid w' = last_pid w \<and> forks_left w' = forks_left w \<and>
     terminations w' = terminations w \<and> fd_limit w' = fd_limit w \<and> may_open w' = may_open w"

lemma read_args_prefix:
  "list_all (\<lambda>t. is_arg (Some t)) args' \<Longrightarrow> length args + length args' \<le> ARG_MAX' \<Longrightarrow>
     \<not> is_arg (peek rest) \<Longrightarrow> read_args args (args' @ rest) = Inr (args @ args', rest)"
proof (induction args' arbitrary: args)
  case Nil
  then show ?case by (cases rest) auto
next
  case (Cons t ts)
  then show ?case by auto
qed

lemma read_argv_stage:
  "stage_args args \<Longrightarrow> \<not> is_arg (peek rest) \<Longrightarrow> read_argv (args @ rest) = Inr (args, rest)"
  by (simp add: read_argv_def stage_args_def read_args_prefix)

lemma read_argv_no_arg:
  "\<not> is_arg (peek rest) \<Longrightarrow> read_argv rest = Inl MissingCommand"
  by (cases rest) (auto simp: read_argv_def)

lemma pipe_not_arg: "is_pipe_token (Some p) \<Longrightarrow> \<not> is_arg (Some p)"
  by (simp add: is_pipe_token_def is_arg_def)

lemma redirect_not_arg: "is_out_redirect_token (Some r) \<Longrightarrow> \<not> is_arg (Some r)"
  by (simp add: is_out_redirect_token_def is_arg_def)

lemma redirect_not_pipe: "is_out_redirect_token (Some r) \<Longrightarrow> \<not> is_pipe_token (Some r)"
  by (simp add: is_out_redirect_token_def is_pipe_token_def)

subsection \<open>Descriptors and allocations that are left\<close>

lemma lowest_fd_free: "lowest_fd t lim = Some n \<Longrightarrow> t n = None \<and> n < lim"
  by (auto simp: lowest_fd_def find_Some_iff)

lemma lowest_fd_none:
  "lowest_fd t lim = None \<longleftrightarrow> length (filter (\<lambda>n. t n = None) [0..<lim]) = 0"
  by (auto simp: lowest_fd_def find_None_iff filter_empty_conv)

lemma filter_without:
  "distinct xs \<Longrightarrow> n \<in> set xs \<Longrightarrow> P n \<Longrightarrow>
     length (filter (\<lambda>m. m \<noteq> n \<and> P m) xs) = length (filter P xs) - 1"
proof (induction xs)
  case Nil
  then show ?case by simp
next
  case (Cons x xs)
  show ?case
  proof (cases "x = n")
    case True
    with Cons.prems have "n \<notin> set xs" by simp
    then have "filter (\<lambda>m. m \<noteq> n \<and> P m) xs = filter P xs"
      by (intro filter_cong) auto
    with True Cons.prems show ?thesis by simp
  next
    case False
    with Cons.prems have n: "n \<in> set xs" and d: "distinct xs" by simp_all
    from n Cons.prems(3) have "filter P xs \<noteq> []" by (auto simp: filter_empty_conv)
    then have pos: "0 < length (filter P xs)" by simp
    from Cons.IH [OF d n Cons.prems(3)] False pos show ?thesis by simp
  qed
qed

lemma free_after_open:
  assumes "lowest_fd t lim = Some n"
  shows "length (filter (\<lambda>m. (t(n \<mapsto> ob)) m = None) [0..<lim]) =
         length (filter (\<lambda>m. t m = None) [0..<lim]) - 1"
proof -
  from lowest_fd_free [OF assms] have n: "t n = None" "n \<in> set [0..<lim]" by simp_all
  have "filter (\<lambda>m. (t(n \<mapsto> ob)) m = None) [0..<lim] =
        filter (\<lambda>m. m \<noteq> n \<and> t m = None) [0..<lim]"
    by (intro filter_cong) auto
  then show ?thesis
    using filter_without [of "[0..<lim]" n "\<lambda>m. t m = None"] n by simp
qed

lemma same_processes_refl [simp]: "same_processes w w"
  by (simp add: same_processes_def)

lemma same_processes_trans:
  "same_processes w w1 \<Longrightarrow> same_processes w1 w2 \<Longrightarrow> same_processes w w2"
  by (simp add: same_processes_def)

lemma sys_malloc_same:
  "sys_malloc w = Some w1 \<Longrightarrow> same_processes w w1 \<and> fdt w1 = fdt w \<and> files w1 = files w \<and>
     npipes w1 = npipes w"
  by (auto simp: sys_malloc_def same_processes_def split: if_splits)

lemma sys_malloc_left:
  "0 < mallocs_left w \<Longrightarrow> sys_malloc w = Some (w\<lparr>mallocs_left := mallocs_left w - 1\<rparr>)"
  by (simp add: sys_malloc_def)

lemma sys_pipe_same:
  "sys_pipe w = Some (w1, rd, wr) \<Longrightarrow> same_processes w w1 \<and> files w1 = files w"
  by (auto simp: sys_pipe_def same_processes_def split: option.splits)

lemma sys_pipe_left:
  assumes "2 \<le> free_fds w"
  shows "\<exists>w1 rd wr. sys_pipe w = Some (w1, rd, wr) \<and> free_fds w1 = free_fds w - 2 \<and>
           mallocs_left w1 = mallocs_left w"
proof -
  let ?n = "\<lambda>t. length (filter (\<lambda>m. t m = None) [0..<fd_limit w])"
  from assms have "lowest_fd (fdt w) (fd_limit w) \<noteq> None"
    by (auto simp: lowest_fd_none free_fds_def)
  then obtain r where r: "lowest_fd (fdt w) (fd_limit w) = Some r" by auto
  let ?t1 = "(fdt w)(r \<mapsto> PipeRead (npipes w))"
  have n1: "?n ?t1 = free_fds w - 1"
    using free_after_open [OF r] by (simp add: free_fds_def)
  with assms have "lowest_fd ?t1 (fd_limit w) \<noteq> None"
    by (auto simp: lowest_fd_none)
  then obtain x where x: "lowest_fd ?t1 (fd_limit w) = Some x" by auto
  let ?t2 = "?t1(x \<mapsto> PipeWrite (npipes w))"
  have n2: "?n ?t2 = free_fds w - 2"
    using free_after_open [OF x] n1 by simp
  define w1 where "w1 = w\<lparr>fdt := ?t2, npipes := npipes w + 1\<rparr>"
  have "sys_pipe w = Some (w1, r, x)"
    by (simp add: sys_pipe_def r x w1_def)
  moreover have "free_fds w1 = free_fds w - 2"
    using n2 by (simp add: free_fds_def w1_def)
  moreover have "mallocs_left w1 = mallocs_left w" by (simp add: w1_def)
  ultimately show ?thesis by blast
qed

lemma sys_open_trunc_same:
  "sys_open_trunc w path = Some (w1, fd) \<Longrightarrow> same_processes w w1"
  by (auto simp: sys_open_trunc_def same_processes_def split: option.splits if_splits)

lemma sys_open_trunc_left:
  "sys_open_trunc w path \<noteq> None \<longleftrightarrow> may_open w path \<and> 0 < free_fds w"
proof (cases "lowest_fd (fdt w) (fd_limit w)")
  case None
  then have "free_fds w = 0" by (auto simp: lowest_fd_none free_fds_def)
  with None show ?thesis by (simp add: sys_open_trunc_def)
next
  case (Some fd)
  then have "lowest_fd (fdt w) (fd_limit w) \<noteq> None" by simp
  then have "0 < free_fds w" by (auto simp: lowest_fd_none free_fds_def)
  with Some show ?thesis by (simp add: sys_open_trunc_def)
qed

lemma sys_open_trunc_file:
  "sys_open_trunc w path = Some (w1, fd) \<Longrightarrow> files w1 path = Some []"
  by (auto simp: sys_open_trunc_def split: option.splits if_splits)

lemma store_tokens_fit:
  "list_all (\<lambda>t. length t < TOKEN_MAX) toks \<Longrightarrow> k + length toks < CMDLINE_MAX \<Longrightarrow>
     length toks \<le> mallocs_left w \<Longrightarrow>
     store_tokens k w toks = Inr (w\<lparr>mallocs_left := mallocs_left w - length toks\<rparr>)"
proof (induction toks arbitrary: k w)
  case Nil
  then show ?case by simp
next
  case (Cons t ts)
  let ?w1 = "w\<lparr>mallocs_left := mallocs_left w - 1\<rparr>"
  from Cons.prems have m: "sys_malloc w = Some ?w1" by (simp add: sys_malloc_left)
  from Cons.prems have "list_all (\<lambda>t. length t < TOKEN_MAX) ts" "Suc k + length ts < CMDLINE_MAX"
    "length ts \<le> mallocs_left ?w1" by simp_all
  from Cons.IH [OF this] Cons.prems m show ?case by simp
qed

lemma store_tokens_same:
  "store_tokens k w toks = Inr w1 \<Longrightarrow>
     same_processes w w1 \<and> fdt w1 = fdt w \<and> files w1 = files w \<and> npipes w1 = npipes w \<and>
     list_all (\<lambda>t. length t < TOKEN_MAX) toks \<and> k + length toks < CMDLINE_MAX"
proof (induction toks arbitrary: k w)
  case Nil
  then show ?case by (simp split: if_splits)
next
  case (Cons t ts)
  from Cons.prems obtain w' where m: "sys_malloc w = Some w'"
    and rec: "store_tokens (Suc k) w' ts = Inr w1"
    and t: "length t < TOKEN_MAX"
    by (auto split: if_splits option.splits)
  from Cons.IH [OF rec] sys_malloc_same [OF m] t show ?case
    by (auto intro: same_processes_trans)
qed

text \<open>
  After well-formed stages, each ended by a pipe token, the loop stands at the next
  stage, if \<open>procs\<close> has room for the stages and \<open>malloc\<close> and \<open>pipe\<close> succeed that often.
\<close>

lemma parse_stages_piped:
  assumes "piped_ok groups" and "i + length groups < PROCESS_MAX"
    and "length groups \<le> mallocs_left w" and "2 * length groups \<le> free_fds w"
  shows "\<exists>w1 in1 ps. length ps = length groups \<and> same_processes w w1 \<and> files w1 = files w \<and>
           mallocs_left w1 = mallocs_left w - length groups \<and>
           free_fds w1 = free_fds w - 2 * length groups \<and>
           (groups = [] \<longrightarrow> w1 = w \<and> in1 = cur_in) \<and>
           parse_stages w i cur_in (piped groups @ rest) =
             (case parse_stages w1 (i + length groups) in1 rest of
                (w2, Inl e) \<Rightarrow> (w2, Inl e)
              | (w2, Inr (ps', x)) \<Rightarrow> (w2, Inr (ps @ ps', x)))"
  using assms
proof (induction groups arbitrary: w i cur_in)
  case Nil
  have "parse_stages w i cur_in rest =
      (case parse_stages w i cur_in rest of
         (w2, Inl e) \<Rightarrow> (w2, Inl e)
       | (w2, Inr (ps', x)) \<Rightarrow> (w2, Inr ([] @ ps', x)))"
    by (simp split: prod.splits sum.splits)
  then have "length ([] :: process list) = length ([] :: (string list \<times> string) list) \<and>
      same_processes w w \<and> files w = files w \<and> mallocs_left w = mallocs_left w - 0 \<and>
      free_fds w = free_fds w - 0 \<and>
      parse_stages w i cur_in (piped [] @ rest) =
      (case parse_stages w (i + 0) cur_in rest of
         (w2, Inl e) \<Rightarrow> (w2, Inl e)
       | (w2, Inr (ps', x)) \<Rightarrow> (w2, Inr ([] @ ps', x)))"
    by simp
  then show ?case by fastforce
next
  case (Cons g groups)
  obtain args p where g: "g = (args, p)" by (cases g)
  from Cons.prems(1) g have sa: "stage_args args" and pp: "is_pipe_token (Some p)"
    and ok: "piped_ok groups"
    by (auto simp: piped_ok_def)
  let ?rest = "piped groups @ rest"
  have ra: "read_argv (piped (g # groups) @ rest) = Inr (args, p # ?rest)"
    using read_argv_stage [OF sa, of "p # ?rest"] pipe_not_arg [OF pp] by (simp add: g)
  have room: "Suc i < PROCESS_MAX" using Cons.prems(2) by simp
  note unfold = parse_stages_pipe [OF ra pp room, of w cur_in]
  define w1 where "w1 = w\<lparr>mallocs_left := mallocs_left w - 1\<rparr>"
  have m: "sys_malloc w = Some w1"
    using Cons.prems(3) by (simp add: sys_malloc_left w1_def)
  have f1: "free_fds w1 = free_fds w" by (simp add: free_fds_def w1_def)
  have "2 \<le> free_fds w1" using Cons.prems(4) f1 by simp
  from sys_pipe_left [OF this] obtain w2 rd wr where
    pi: "sys_pipe w1 = Some (w2, rd, wr)" and f2': "free_fds w2 = free_fds w1 - 2"
    and m2': "mallocs_left w2 = mallocs_left w1"
    by blast
  have f2: "free_fds w2 = free_fds w - 2" using f2' f1 by simp
  have m2: "mallocs_left w2 = mallocs_left w - 1" using m2' by (simp add: w1_def)
  have sp2: "same_processes w w2" "files w2 = files w"
    using sys_malloc_same [OF m] sys_pipe_same [OF pi]
    by (auto intro: same_processes_trans)
  let ?src = "\<lparr>argv = args, fd_in = cur_in, fd_out = wr,
                 fd_err = (if second_char_set p then wr else STDERR_FILENO)\<rparr>"
  have eq: "parse_stages w i cur_in (piped (g # groups) @ rest) =
      (case parse_stages w2 (Suc i) rd ?rest of
         (w3, Inl e) \<Rightarrow> (w3, Inl e)
       | (w3, Inr (ps, x)) \<Rightarrow> (w3, Inr (?src # ps, x)))"
    unfolding unfold using m pi
    by (auto split: prod.splits sum.splits)
  have pre: "Suc i + length groups < PROCESS_MAX" "length groups \<le> mallocs_left w2"
    "2 * length groups \<le> free_fds w2"
    using Cons.prems(2,3,4) m2 f2 by simp_all
  from Cons.IH [OF ok pre, of rd] obtain w3 in1 ps where
    len: "length ps = length groups" and sp3: "same_processes w2 w3" "files w3 = files w2"
    and m3: "mallocs_left w3 = mallocs_left w2 - length groups"
    and f3: "free_fds w3 = free_fds w2 - 2 * length groups"
    and st: "parse_stages w2 (Suc i) rd ?rest =
              (case parse_stages w3 (Suc i + length groups) in1 rest of
                 (w2, Inl e) \<Rightarrow> (w2, Inl e)
               | (w2, Inr (ps', x)) \<Rightarrow> (w2, Inr (ps @ ps', x)))"
    by blast
  have "parse_stages w i cur_in (piped (g # groups) @ rest) =
        (case parse_stages w3 (i + length (g # groups)) in1 rest of
           (w2, Inl e) \<Rightarrow> (w2, Inl e)
         | (w2, Inr (ps', x)) \<Rightarrow> (w2, Inr ((?src # ps) @ ps', x)))"
    unfolding eq st by (auto split: prod.splits sum.splits)
  moreover have "length (?src # ps) = length (g # groups)" using len by simp
  moreover have "same_processes w w3" using sp2 sp3 by (blast intro: same_processes_trans)
  moreover have "files w3 = files w" using sp2 sp3 by simp
  moreover have "mallocs_left w3 = mallocs_left w - length (g # groups)"
    using m3 m2 by simp
  moreover have "free_fds w3 = free_fds w - 2 * length (g # groups)"
    using f3 f2 by simp
  ultimately show ?case by blast
qed

text \<open>
  \<open>parse_command\<close> up to its loop, for a line with a token whose tokens fit and can be
  allocated.
\<close>

lemma parse_wiring_unfold:
  assumes "tokens_of cmdline \<noteq> []" and "tokens_fit (tokens_of cmdline)"
    and "length (tokens_of cmdline) < mallocs_left w"
  shows "parse_wiring w cmdline =
           (case parse_stages (w\<lparr>mallocs_left := mallocs_left w - Suc (length (tokens_of cmdline))\<rparr>)
                   0 STDIN_FILENO (tokens_of cmdline) of
              (w2, Inl e) \<Rightarrow> (w2, Inl e)
            | (w2, Inr (ps, args, cur_in, tok_iter)) \<Rightarrow>
                finish_command w2 ps args cur_in tok_iter)"
proof -
  let ?toks = "tokens_of cmdline"
  define w1 where "w1 = w\<lparr>mallocs_left := mallocs_left w - length ?toks\<rparr>"
  from assms(1) have pk: "peek ?toks \<noteq> None" by (cases ?toks) auto
  have st: "store_tokens 0 w ?toks = Inr w1"
    using store_tokens_fit [of ?toks 0 w] assms(2,3) by (simp add: tokens_fit_def w1_def)
  have m: "sys_malloc w1 = Some (w\<lparr>mallocs_left := mallocs_left w - Suc (length ?toks)\<rparr>)"
    using assms(3) by (simp add: sys_malloc_def w1_def)
  show ?thesis
    unfolding parse_wiring_alt Let_def st using pk m by auto
qed

text \<open>
  The shape of a line whose stages are well formed: stages ended by pipe tokens, then the
  arguments of the last stage, then a tail that starts with neither an argument nor a
  pipe token (so it is empty or starts with a redirect token).
\<close>

lemma parse_wiring_shape:
  assumes toks: "tokens_of cmdline = piped groups @ args @ tail"
    and groups: "piped_ok groups" and args: "stage_args args"
    and tail: "\<not> is_arg (peek tail)" "\<not> is_pipe_token (peek tail)"
    and fit: "tokens_fit (tokens_of cmdline)" "length groups < PROCESS_MAX"
    and memory: "length (tokens_of cmdline) + length groups < mallocs_left w"
    and fds: "2 * length groups \<le> free_fds w"
  shows "\<exists>w2 ps cur_in. length ps = length groups \<and> same_processes w w2 \<and> files w2 = files w \<and>
           free_fds w2 = free_fds w - 2 * length groups \<and>
           parse_wiring w cmdline = finish_command w2 ps args cur_in tail"
proof -
  let ?toks = "tokens_of cmdline"
  define w1 where "w1 = w\<lparr>mallocs_left := mallocs_left w - Suc (length ?toks)\<rparr>"
  have ne: "?toks \<noteq> []"
    using toks args by (auto simp: stage_args_def)
  have pc: "parse_wiring w cmdline =
             (case parse_stages w1 0 STDIN_FILENO ?toks of
                (w2, Inl e) \<Rightarrow> (w2, Inl e)
              | (w2, Inr (ps, args, cur_in, tok_iter)) \<Rightarrow>
                  finish_command w2 ps args cur_in tok_iter)"
    using parse_wiring_unfold [OF ne fit(1)] memory by (simp add: w1_def)
  have s1: "same_processes w w1" "files w1 = files w" "free_fds w1 = free_fds w"
    by (simp_all add: w1_def same_processes_def free_fds_def)
  have pre: "0 + length groups < PROCESS_MAX" "length groups \<le> mallocs_left w1"
    "2 * length groups \<le> free_fds w1"
    using fit(2) memory fds by (simp_all add: w1_def free_fds_def)
  have last: "parse_stages w' k c (args @ tail) = (w', Inr ([], args, c, tail))" for w' k c
    using parse_stages_break [OF read_argv_stage [OF args tail(1)] tail(2)] .
  from parse_stages_piped [OF groups pre, of STDIN_FILENO "args @ tail"]
  obtain w2 in1 ps where
    len: "length ps = length groups" and s2: "same_processes w1 w2" "files w2 = files w1"
    and f2: "free_fds w2 = free_fds w1 - 2 * length groups"
    and st: "parse_stages w1 0 STDIN_FILENO ?toks = (w2, Inr (ps, args, in1, tail))"
    unfolding toks by (auto simp: last)
  have "parse_wiring w cmdline = finish_command w2 ps args in1 tail"
    using pc st by simp
  moreover have "same_processes w w2" using s1 s2 by (blast intro: same_processes_trans)
  moreover have "files w2 = files w" using s1 s2 by simp
  moreover have "free_fds w2 = free_fds w - 2 * length groups" using f2 s1 by simp
  ultimately show ?thesis using len by blast
qed

lemma parse_stages_same:
  "parse_stages w i cur_in toks = (w', res) \<Longrightarrow> same_processes w w' \<and> files w' = files w"
proof (induction "length toks" arbitrary: w i cur_in toks w' res rule: less_induct)
  case less
  show ?case
  proof (cases "read_argv toks")
    case (Inl e)
    with less.prems show ?thesis by (simp add: parse_stages_error)
  next
    case (Inr x)
    obtain args rest where ra: "read_argv toks = Inr (args, rest)" using Inr by (cases x) simp
    show ?thesis
    proof (cases "is_pipe_token (peek rest)")
      case False
      with less.prems ra show ?thesis by (simp add: parse_stages_break)
    next
      case True
      then obtain p rest' where rest: "rest = p # rest'" and pp: "is_pipe_token (Some p)"
        using is_pipe_peek by blast
      have ra': "read_argv toks = Inr (args, p # rest')" using ra rest by simp
      have shorter: "length rest' < length toks"
        using read_argv_shorter [OF ra'] by simp
      show ?thesis
      proof (cases "Suc i < PROCESS_MAX")
        case False
        then have "PROCESS_MAX \<le> Suc i" by simp
        from parse_stages_overrun [OF ra' pp this] less.prems show ?thesis by simp
      next
        case room: True
        note unfold = parse_stages_pipe [OF ra' pp room, of w cur_in]
        show ?thesis
        proof (cases "sys_malloc w")
          case None
          with less.prems show ?thesis unfolding unfold by simp
        next
          case (Some w1)
          note m = sys_malloc_same [OF Some]
          show ?thesis
          proof (cases "sys_pipe w1")
            case None
            with less.prems Some m show ?thesis unfolding unfold by auto
          next
            case (Some y)
            obtain w2 rd wr where pi: "sys_pipe w1 = Some (w2, rd, wr)" using Some by (cases y) simp
            note q = sys_pipe_same [OF pi]
            obtain w3 res3 where rec: "parse_stages w2 (Suc i) rd rest' = (w3, res3)"
              by (cases "parse_stages w2 (Suc i) rd rest'")
            from less.hyps [OF shorter rec] have ih: "same_processes w2 w3 \<and> files w3 = files w2" .
            from less.prems have "w' = w3"
              unfolding unfold using \<open>sys_malloc w = Some w1\<close> pi rec
              by (auto split: sum.splits prod.splits)
            with ih m q show ?thesis
              by (auto intro: same_processes_trans)
          qed
        qed
      qed
    qed
  qed
qed

lemma finish_command_same:
  "finish_command w ps args cur_in tok_iter = (w', res) \<Longrightarrow> same_processes w w'"
  by (auto simp: finish_command_def redirect_proc_out_def terminate_procs_def
      split: if_splits option.splits prod.splits dest: sys_open_trunc_same)

text \<open>\<open>parse_command\<close> forks and reaps nothing, however it ends.\<close>

lemma parse_wiring_same:
  "same_processes w (fst (parse_wiring w cmdline))"
proof -
  have "same_processes w w'" if "parse_wiring w cmdline = (w', res)" for w' res
    using that
    by (auto simp: parse_wiring_alt Let_def
        split: option.splits if_splits prod.splits sum.splits
        dest!: store_tokens_same sys_malloc_same parse_stages_same finish_command_same
        intro: same_processes_trans)
  then show ?thesis by (cases "parse_wiring w cmdline") auto
qed

section \<open>What \<open>parse_command\<close> wires\<close>

text \<open>
  \<open>pipe_tokens toks\<close> are the pipe operators of a line in their order: the pipe tokens
  before the first redirect token (the parser does not look at what follows the path of
  a redirection).
\<close>

definition pipe_tokens :: "string list \<Rightarrow> string list" where
  "pipe_tokens toks =
     filter (\<lambda>t. is_pipe_token (Some t))
       (takeWhile (\<lambda>t. \<not> is_out_redirect_token (Some t)) toks)"

lemma sys_pipe_fresh:
  assumes "sys_pipe w = Some (w', rd, wr)"
  shows "fdt w rd = None \<and> fdt w wr = None \<and> rd \<noteq> wr \<and>
         fdt w' = (fdt w)(rd \<mapsto> PipeRead (npipes w), wr \<mapsto> PipeWrite (npipes w)) \<and>
         npipes w' = Suc (npipes w)"
proof -
  from assms obtain r where r: "lowest_fd (fdt w) (fd_limit w) = Some r"
    by (auto simp: sys_pipe_def split: option.splits)
  from assms r obtain x where
    x: "lowest_fd ((fdt w)(r \<mapsto> PipeRead (npipes w))) (fd_limit w) = Some x"
    by (auto simp: sys_pipe_def split: option.splits)
  from assms r x have eq: "rd = r" "wr = x"
    "w' = w\<lparr>fdt := (fdt w)(r \<mapsto> PipeRead (npipes w), x \<mapsto> PipeWrite (npipes w)),
            npipes := npipes w + 1\<rparr>"
    by (auto simp: sys_pipe_def)
  from lowest_fd_free [OF r] have 1: "fdt w r = None" by simp
  from lowest_fd_free [OF x] have 2: "((fdt w)(r \<mapsto> PipeRead (npipes w))) x = None" by simp
  then have "x \<noteq> r" by auto
  with 1 2 eq show ?thesis by auto
qed

lemma sys_open_trunc_fresh:
  "sys_open_trunc w path = Some (w', fd) \<Longrightarrow>
     fdt w fd = None \<and> fdt w' = (fdt w)(fd \<mapsto> OutFile path) \<and> npipes w' = npipes w"
  by (auto simp: sys_open_trunc_def split: option.splits if_splits dest: lowest_fd_free)

lemma read_args_split:
  "read_args acc toks = Inr (args, rest) \<Longrightarrow>
     \<exists>args'. args = acc @ args' \<and> toks = args' @ rest \<and>
       list_all (\<lambda>t. is_arg (Some t)) args' \<and> \<not> is_arg (peek rest)"
proof (induction toks arbitrary: acc)
  case Nil
  then show ?case by simp
next
  case (Cons t toks)
  show ?case
  proof (cases "is_arg (Some t)")
    case True
    with Cons.prems have "read_args (acc @ [t]) toks = Inr (args, rest)"
      by (simp split: if_splits)
    from Cons.IH [OF this] obtain args' where
      "args = (acc @ [t]) @ args'" "toks = args' @ rest"
      "list_all (\<lambda>t. is_arg (Some t)) args'" "\<not> is_arg (peek rest)"
      by blast
    with True have "args = acc @ (t # args') \<and> t # toks = (t # args') @ rest \<and>
       list_all (\<lambda>t. is_arg (Some t)) (t # args') \<and> \<not> is_arg (peek rest)"
      by simp
    then show ?thesis by blast
  next
    case False
    with Cons.prems show ?thesis by auto
  qed
qed

lemma read_argv_split:
  "read_argv toks = Inr (args, rest) \<Longrightarrow>
     toks = args @ rest \<and> list_all (\<lambda>t. is_arg (Some t)) args \<and> \<not> is_arg (peek rest)"
  by (auto simp: read_argv_def split: sum.splits if_splits dest!: read_args_split)

lemma token_kinds:
  "is_arg (Some t) \<or> is_pipe_token (Some t) \<or> is_out_redirect_token (Some t)"
  by (auto simp: is_arg_def is_pipe_token_def is_out_redirect_token_def)

lemma arg_not_operator:
  "is_arg (Some t) \<Longrightarrow> \<not> is_pipe_token (Some t) \<and> \<not> is_out_redirect_token (Some t)"
  by (auto simp: is_arg_def is_pipe_token_def is_out_redirect_token_def)

lemma pipe_not_redirect: "is_pipe_token (Some t) \<Longrightarrow> \<not> is_out_redirect_token (Some t)"
  by (auto simp: is_pipe_token_def is_out_redirect_token_def)

lemma pipe_tokens_args:
  "list_all (\<lambda>t. is_arg (Some t)) args \<Longrightarrow> pipe_tokens (args @ rest) = pipe_tokens rest"
  by (induction args) (auto simp: pipe_tokens_def dest: arg_not_operator)

lemma pipe_tokens_pipe:
  "is_pipe_token (Some p) \<Longrightarrow> pipe_tokens (p # rest) = p # pipe_tokens rest"
  by (auto simp: pipe_tokens_def dest: pipe_not_redirect)

lemma pipe_tokens_stop:
  "\<not> is_arg (peek r) \<Longrightarrow> \<not> is_pipe_token (peek r) \<Longrightarrow> pipe_tokens r = []"
proof (cases r)
  case Nil
  then show ?thesis by (simp add: pipe_tokens_def)
next
  case (Cons t ts)
  assume "\<not> is_arg (peek r)" "\<not> is_pipe_token (peek r)"
  with Cons token_kinds [of t] have "is_out_redirect_token (Some t)" by simp
  with Cons show ?thesis by (simp add: pipe_tokens_def)
qed

text \<open>What the loop of \<open>parse_command\<close> has wired when it leaves by \<open>break\<close>.\<close>

definition stages_wired ::
  "world \<Rightarrow> nat \<Rightarrow> string list \<Rightarrow> world \<Rightarrow> process list \<Rightarrow> nat \<Rightarrow> bool" where
  "stages_wired w cur_in toks w' ps f \<longleftrightarrow>
     npipes w' = npipes w + length ps \<and>
     length (pipe_tokens toks) = length ps \<and>
     (\<forall>d. fdt w d \<noteq> None \<longrightarrow> fdt w' d = fdt w d) \<and>
     (map fd_in ps @ [f]) ! 0 = cur_in \<and>
     (\<forall>k < length ps.
        fdt w' (fd_out (ps ! k)) = Some (PipeWrite (npipes w + k)) \<and>
        fdt w' ((map fd_in ps @ [f]) ! Suc k) = Some (PipeRead (npipes w + k)) \<and>
        fdt w (fd_out (ps ! k)) = None \<and>
        fdt w ((map fd_in ps @ [f]) ! Suc k) = None \<and>
        fd_err (ps ! k) =
          (if second_char_set (pipe_tokens toks ! k) then fd_out (ps ! k) else STDERR_FILENO))"

lemma parse_stages_wired:
  assumes "parse_stages w i cur_in toks = (w', Inr (ps, a, f, r))"
  shows "stages_wired w cur_in toks w' ps f"
  using assms
proof (induction rule: parse_stages_ok_induct)
  case (Break w i cur_in toks a r)
  from read_argv_split [OF Break(1)] have "toks = a @ r" "list_all (\<lambda>t. is_arg (Some t)) a"
    "\<not> is_arg (peek r)" by simp_all
  then have "pipe_tokens toks = []"
    using Break(2) by (simp add: pipe_tokens_args pipe_tokens_stop)
  then show ?case by (simp add: stages_wired_def)
next
  case (Pipe w i cur_in toks args p rest w1 w2 rd wr w' ps a f r)
  let ?src = "\<lparr>argv = args, fd_in = cur_in, fd_out = wr,
                fd_err = (if second_char_set p then wr else STDERR_FILENO)\<rparr>"
  let ?ins = "map fd_in ps @ [f]"
  from read_argv_split [OF Pipe(1)] have "toks = args @ p # rest"
    "list_all (\<lambda>t. is_arg (Some t)) args" by simp_all
  then have pt: "pipe_tokens toks = p # pipe_tokens rest"
    using Pipe(2) by (simp add: pipe_tokens_args pipe_tokens_pipe)
  have m: "fdt w1 = fdt w" "npipes w1 = npipes w"
    using Pipe(4) by (auto simp: sys_malloc_def split: if_splits)
  from sys_pipe_fresh [OF Pipe(5)] have
    fresh: "fdt w rd = None" "fdt w wr = None" "rd \<noteq> wr"
    and t2: "fdt w2 = (fdt w)(rd \<mapsto> PipeRead (npipes w), wr \<mapsto> PipeWrite (npipes w))"
    and n2: "npipes w2 = Suc (npipes w)"
    by (simp_all add: m)
  from Pipe(7) have
    ih_n: "npipes w' = npipes w2 + length ps"
    and ih_l: "length (pipe_tokens rest) = length ps"
    and ih_keep: "\<And>d. fdt w2 d \<noteq> None \<Longrightarrow> fdt w' d = fdt w2 d"
    and ih_0: "?ins ! 0 = rd"
    and ih_k: "\<And>k. k < length ps \<Longrightarrow>
        fdt w' (fd_out (ps ! k)) = Some (PipeWrite (npipes w2 + k)) \<and>
        fdt w' (?ins ! Suc k) = Some (PipeRead (npipes w2 + k)) \<and>
        fdt w2 (fd_out (ps ! k)) = None \<and>
        fdt w2 (?ins ! Suc k) = None \<and>
        fd_err (ps ! k) =
          (if second_char_set (pipe_tokens rest ! k) then fd_out (ps ! k) else STDERR_FILENO)"
    by (simp_all add: stages_wired_def)
  have keep: "fdt w' d = fdt w d" if "fdt w d \<noteq> None" for d
  proof -
    from that fresh have "d \<noteq> rd" "d \<noteq> wr" by auto
    then have "fdt w2 d = fdt w d" by (simp add: t2)
    with that ih_keep [of d] show ?thesis by simp
  qed
  have w2_none: "fdt w d = None" if "fdt w2 d = None" for d
    using that by (auto simp: t2 split: if_splits)
  have rd': "fdt w' rd = Some (PipeRead (npipes w))"
    using ih_keep [of rd] fresh by (simp add: t2)
  have wr': "fdt w' wr = Some (PipeWrite (npipes w))"
    using ih_keep [of wr] by (simp add: t2)
  have step: "fdt w' (fd_out ((?src # ps) ! k)) = Some (PipeWrite (npipes w + k)) \<and>
        fdt w' ((map fd_in (?src # ps) @ [f]) ! Suc k) = Some (PipeRead (npipes w + k)) \<and>
        fdt w (fd_out ((?src # ps) ! k)) = None \<and>
        fdt w ((map fd_in (?src # ps) @ [f]) ! Suc k) = None \<and>
        fd_err ((?src # ps) ! k) =
          (if second_char_set (pipe_tokens toks ! k) then fd_out ((?src # ps) ! k)
           else STDERR_FILENO)"
    if "k < length (?src # ps)" for k
  proof (cases k)
    case 0
    then show ?thesis using rd' wr' fresh ih_0 by (simp add: pt)
  next
    case (Suc j)
    with that have j: "j < length ps" by simp
    from ih_k [OF j] w2_none show ?thesis
      by (simp add: Suc pt n2)
  qed
  show ?case
    unfolding stages_wired_def
    using ih_n ih_l keep step by (simp add: n2 pt)
qed





text \<open>
  A call of \<open>parse_command\<close> that reaches line 357, in terms of its loop: the processes
  are those of the loop and a last one, and the world is that of the loop but for the
  descriptor of the output file, if there is one.
\<close>

lemma parse_wiring_ok_stages:
  assumes "parse_wiring w cmdline = (w', Inr procs)"
  obtains w1 w2 ps a f r last where
    "fdt w1 = fdt w" "npipes w1 = npipes w"
    "parse_stages w1 0 STDIN_FILENO (tokens_of cmdline) = (w2, Inr (ps, a, f, r))"
    "procs = ps @ [last]" "fd_in last = f" "argv last = a"
    "npipes w' = npipes w2"
    "\<And>d. fdt w2 d \<noteq> None \<Longrightarrow> fdt w' d = fdt w2 d"
    "(fd_out last = STDOUT_FILENO \<and> fd_err last = STDERR_FILENO) \<or>
     (fdt w2 (fd_out last) = None \<and> fdt w' (fd_out last) \<noteq> None \<and>
      (fd_err last = STDERR_FILENO \<or> fd_err last = fd_out last))"
  using assms
proof (cases rule: parse_wiring_ok_cases)
  case (Plain w0 w1 ps a f r)
  from store_tokens_same [OF Plain(1)] sys_malloc_same [OF Plain(2)]
  have "fdt w1 = fdt w" "npipes w1 = npipes w" by simp_all
  with Plain that [of w1 w' ps a f r
      "\<lparr>argv = a, fd_in = f, fd_out = STDOUT_FILENO, fd_err = STDERR_FILENO\<rparr>"]
  show ?thesis by simp
next
  case (Redirect w0 w1 w2 ps a f rt path rest fd)
  from store_tokens_same [OF Redirect(1)] sys_malloc_same [OF Redirect(2)]
  have s: "fdt w1 = fdt w" "npipes w1 = npipes w" by simp_all
  from sys_open_trunc_fresh [OF Redirect(5)] have
    o: "fdt w2 fd = None" "fdt w' = (fdt w2)(fd \<mapsto> OutFile path)" "npipes w' = npipes w2"
    by simp_all
  have keep: "fdt w' d = fdt w2 d" if "fdt w2 d \<noteq> None" for d
    using that o by auto
  show ?thesis
    using that [of w1 w2 ps a f "rt # path # rest"
      "\<lparr>argv = a, fd_in = f, fd_out = fd,
         fd_err = (if second_char_set rt then fd else STDERR_FILENO)\<rparr>"]
      s Redirect(3,7) o keep by simp
qed

section \<open>Wired pipelines and their children\<close>

text \<open>
  \<open>wired t procs\<close>: every slot of every process holds its own standard stream or a
  descriptor above the standard ones, every descriptor is open in the table \<open>t\<close>, and no
  descriptor above the standard ones belongs to two processes.
\<close>

definition nonstd_fds :: "process \<Rightarrow> nat set" where
  \<comment> \<open>the descriptors that \<open>close_nonstd_fds\<close> closes\<close>
  "nonstd_fds p =
     (if fd_in p \<noteq> STDIN_FILENO then {fd_in p} else {}) \<union>
     (if fd_out p \<noteq> STDOUT_FILENO then {fd_out p} else {}) \<union>
     (if fd_err p \<noteq> STDERR_FILENO then {fd_err p} else {})"

definition triple :: "process \<Rightarrow> nat set" where
  "triple p = {fd_in p, fd_out p, fd_err p}"

definition stdish :: "process \<Rightarrow> bool" where
  \<comment> \<open>each slot holds its own standard stream or a descriptor above the standard ones\<close>
  "stdish p \<longleftrightarrow>
     (fd_in p = STDIN_FILENO \<or> 2 < fd_in p) \<and>
     (fd_out p = STDOUT_FILENO \<or> 2 < fd_out p) \<and>
     (fd_err p = STDERR_FILENO \<or> 2 < fd_err p)"

definition wired :: "fdtable \<Rightarrow> process list \<Rightarrow> bool" where
  "wired t procs \<longleftrightarrow>
     (\<forall>p \<in> set procs. stdish p \<and> (\<forall>d \<in> triple p. t d \<noteq> None)) \<and>
     (\<forall>i < length procs. \<forall>j < length procs.
        i \<noteq> j \<longrightarrow> nonstd_fds (procs ! i) \<inter> nonstd_fds (procs ! j) = {})"

lemma close_nonstd_fds_apply:
  "close_nonstd_fds p t d = (if d \<in> nonstd_fds p then None else t d)"
  by (auto simp: close_nonstd_fds_def nonstd_fds_def sys_close_def Let_def)

lemma fold_close_apply:
  "fold close_nonstd_fds ps t d = (if d \<in> (\<Union>p \<in> set ps. nonstd_fds p) then None else t d)"
  by (induction ps arbitrary: t) (auto simp: close_nonstd_fds_apply)

lemma stdish_nonstd: "stdish p \<Longrightarrow> nonstd_fds p = {d \<in> triple p. 2 < d}"
  by (auto simp: stdish_def nonstd_fds_def triple_def)

lemma exec_proc_invoked:
  assumes "stdish p" and "T (fd_in p) \<noteq> None" "T (fd_out p) \<noteq> None" "T (fd_err p) \<noteq> None"
  shows "\<exists>t. exec_proc p T = Execvp t (argv p) \<and>
           t STDIN_FILENO = T (fd_in p) \<and> t STDOUT_FILENO = T (fd_out p) \<and>
           t STDERR_FILENO = T (fd_err p) \<and>
           (\<forall>d. 2 < d \<longrightarrow> t d = (if d \<in> nonstd_fds p then None else T d))"
proof -
  from assms obtain a b c where
    a: "T (fd_in p) = Some a" and b: "T (fd_out p) = Some b" and c: "T (fd_err p) = Some c"
    by auto
  let ?t1 = "T(STDIN_FILENO \<mapsto> a)"
  let ?t2 = "?t1(STDOUT_FILENO \<mapsto> b)"
  let ?t3 = "?t2(STDERR_FILENO \<mapsto> c)"
  have o: "fd_out p \<noteq> 0" and e: "fd_err p \<noteq> 0" "fd_err p \<noteq> 1"
    using assms(1) by (auto simp: stdish_def)
  have 1: "sys_dup2 (fd_in p) STDIN_FILENO T = Some ?t1"
    by (simp add: sys_dup2_def a)
  have 2: "sys_dup2 (fd_out p) STDOUT_FILENO ?t1 = Some ?t2"
    using o by (simp add: sys_dup2_def b)
  have 3: "sys_dup2 (fd_err p) STDERR_FILENO ?t2 = Some ?t3"
    using e by (simp add: sys_dup2_def c)
  have ex: "exec_proc p T = Execvp (close_nonstd_fds p ?t3) (argv p)"
    by (simp only: exec_proc_def 1 2 3 option.case)
  have std: "0 \<notin> nonstd_fds p" "1 \<notin> nonstd_fds p" "2 \<notin> nonstd_fds p"
    using assms(1) by (auto simp: stdish_nonstd)
  show ?thesis
    unfolding ex using std a b c by (auto simp: close_nonstd_fds_apply)
qed

lemma others_take_drop:
  assumes "i < length xs"
  shows "x \<in> set (take i xs) \<union> set (drop (Suc i) xs) \<longleftrightarrow>
         (\<exists>j < length xs. j \<noteq> i \<and> x = xs ! j)"
proof
  assume "x \<in> set (take i xs) \<union> set (drop (Suc i) xs)"
  then show "\<exists>j < length xs. j \<noteq> i \<and> x = xs ! j"
  proof
    assume "x \<in> set (take i xs)"
    then obtain k where "k < length (take i xs)" "x = take i xs ! k"
      by (auto simp: in_set_conv_nth)
    then have "k < length xs" "k \<noteq> i" "x = xs ! k" using assms by auto
    then show ?thesis by blast
  next
    assume "x \<in> set (drop (Suc i) xs)"
    then obtain k where "k < length xs - Suc i" "x = drop (Suc i) xs ! k"
      by (auto simp: in_set_conv_nth)
    then have "Suc i + k < length xs" "Suc i + k \<noteq> i" "x = xs ! (Suc i + k)"
      by auto
    then show ?thesis by blast
  qed
next
  assume "\<exists>j < length xs. j \<noteq> i \<and> x = xs ! j"
  then obtain j where j: "j < length xs" "j \<noteq> i" "x = xs ! j" by blast
  show "x \<in> set (take i xs) \<union> set (drop (Suc i) xs)"
  proof (cases "j < i")
    case True
    then have "x = take i xs ! j" "j < length (take i xs)" using j by auto
    then have "x \<in> set (take i xs)" by (metis nth_mem)
    then show ?thesis by simp
  next
    case False
    with j have "i < j" by auto
    then have "x = drop (Suc i) xs ! (j - Suc i)" "j - Suc i < length (drop (Suc i) xs)"
      using j by auto
    then have "x \<in> set (drop (Suc i) xs)" by (metis nth_mem)
    then show ?thesis by simp
  qed
qed

text \<open>
  The child of stage \<open>i\<close> of a wired pipeline at the call of \<open>execvp\<close>: its standard
  streams are what the descriptors of the stage stood for in the shell, every descriptor
  above them that is in the triple of a stage is closed, and every other descriptor is
  as it was in the shell.
\<close>

lemma wired_child:
  assumes w: "wired t procs" and i: "i < length procs"
  shows "\<exists>tbl. exec_proc (procs ! i)
             (fold close_nonstd_fds (drop (Suc i) procs)
                (fold close_nonstd_fds (take i procs) t)) = Execvp tbl (argv (procs ! i)) \<and>
           tbl STDIN_FILENO = t (fd_in (procs ! i)) \<and>
           tbl STDOUT_FILENO = t (fd_out (procs ! i)) \<and>
           tbl STDERR_FILENO = t (fd_err (procs ! i)) \<and>
           (\<forall>d. 2 < d \<longrightarrow> tbl d = (if d \<in> (\<Union>p \<in> set procs. triple p) then None else t d))"
proof -
  let ?p = "procs ! i"
  let ?T = "fold close_nonstd_fds (drop (Suc i) procs) (fold close_nonstd_fds (take i procs) t)"
  define others where
    "others = (\<Union>q \<in> set (take i procs) \<union> set (drop (Suc i) procs). nonstd_fds q)"
  have T: "?T d = (if d \<in> others then None else t d)" for d
    by (auto simp: fold_close_apply others_def)
  have others: "d \<in> others \<longleftrightarrow> (\<exists>j < length procs. j \<noteq> i \<and> d \<in> nonstd_fds (procs ! j))" for d
  proof -
    have "d \<in> others \<longleftrightarrow>
        (\<exists>q. q \<in> set (take i procs) \<union> set (drop (Suc i) procs) \<and> d \<in> nonstd_fds q)"
      by (auto simp: others_def)
    also have "\<dots> \<longleftrightarrow> (\<exists>j < length procs. j \<noteq> i \<and> d \<in> nonstd_fds (procs ! j))"
      unfolding others_take_drop [OF i] by auto
    finally show ?thesis .
  qed
  have sp: "stdish (procs ! j)" and op: "\<forall>d \<in> triple (procs ! j). t d \<noteq> None"
    if "j < length procs" for j
    using w that by (auto simp: wired_def)
  have disj: "d \<notin> nonstd_fds (procs ! j)"
    if "j < length procs" "j \<noteq> i" "d \<in> nonstd_fds ?p" for j d
  proof -
    from w i that(1,2) have "nonstd_fds ?p \<inter> nonstd_fds (procs ! j) = {}"
      by (simp add: wired_def)
    with that(3) show ?thesis by blast
  qed
  have own: "?T d = t d" if "d \<in> triple ?p" for d
  proof (cases "2 < d")
    case True
    with that have "d \<in> nonstd_fds ?p" by (simp add: stdish_nonstd [OF sp [OF i]])
    with disj have "d \<notin> others" unfolding others by blast
    then show ?thesis by (simp add: T)
  next
    case False
    have "d \<notin> nonstd_fds (procs ! j)" if "j < length procs" for j
      using False by (simp add: stdish_nonstd [OF sp [OF that]])
    then have "d \<notin> others" unfolding others by blast
    then show ?thesis by (simp add: T)
  qed
  have opn: "?T (fd_in ?p) \<noteq> None" "?T (fd_out ?p) \<noteq> None" "?T (fd_err ?p) \<noteq> None"
    using own op [OF i] by (simp_all add: triple_def)
  from exec_proc_invoked [OF sp [OF i] opn] obtain tbl where
    ex: "exec_proc ?p ?T = Execvp tbl (argv ?p)"
    and s: "tbl STDIN_FILENO = ?T (fd_in ?p)" "tbl STDOUT_FILENO = ?T (fd_out ?p)"
      "tbl STDERR_FILENO = ?T (fd_err ?p)"
    and high: "\<And>d. 2 < d \<Longrightarrow> tbl d = (if d \<in> nonstd_fds ?p then None else ?T d)"
    by blast
  have member: "d \<in> (\<Union>p \<in> set procs. triple p) \<longleftrightarrow> d \<in> nonstd_fds ?p \<or> d \<in> others"
    if "2 < d" for d
  proof
    assume "d \<in> (\<Union>p \<in> set procs. triple p)"
    then obtain j where j: "j < length procs" "d \<in> triple (procs ! j)"
      by (auto simp: in_set_conv_nth)
    with that have n: "d \<in> nonstd_fds (procs ! j)" by (simp add: stdish_nonstd [OF sp [OF j(1)]])
    show "d \<in> nonstd_fds ?p \<or> d \<in> others"
    proof (cases "j = i")
      case True
      with n show ?thesis by simp
    next
      case False
      with j(1) n have "d \<in> others" unfolding others by blast
      then show ?thesis by simp
    qed
  next
    assume "d \<in> nonstd_fds ?p \<or> d \<in> others"
    then obtain j where j: "j < length procs" "d \<in> nonstd_fds (procs ! j)"
      using i unfolding others by blast
    then have "d \<in> triple (procs ! j)" by (simp add: stdish_nonstd [OF sp [OF j(1)]])
    moreover have "procs ! j \<in> set procs" using j(1) by simp
    ultimately show "d \<in> (\<Union>p \<in> set procs. triple p)" by blast
  qed
  have closed: "tbl d = (if d \<in> (\<Union>p \<in> set procs. triple p) then None else t d)"
    if "2 < d" for d
    using high [OF that] member [OF that] by (simp add: T)
  have s': "tbl STDIN_FILENO = t (fd_in ?p)" "tbl STDOUT_FILENO = t (fd_out ?p)"
    "tbl STDERR_FILENO = t (fd_err ?p)"
    using s own by (simp_all add: triple_def)
  have "\<forall>d. 2 < d \<longrightarrow> tbl d = (if d \<in> (\<Union>p \<in> set procs. triple p) then None else t d)"
    using closed by blast
  with ex s' show ?thesis by blast
qed

lemma parse_wiring_wired:
  assumes ok: "parse_wiring w cmdline = (w', Inr procs)"
    and std: "fdt w STDIN_FILENO \<noteq> None" "fdt w STDOUT_FILENO \<noteq> None"
      "fdt w STDERR_FILENO \<noteq> None"
  shows "wired (fdt w') procs"
proof -
  let ?toks = "tokens_of cmdline"
  from ok obtain w1 w2 ps a f r last where
    w1: "fdt w1 = fdt w" "npipes w1 = npipes w"
    and st: "parse_stages w1 0 STDIN_FILENO ?toks = (w2, Inr (ps, a, f, r))"
    and procs: "procs = ps @ [last]" and last: "fd_in last = f" "argv last = a"
    and n: "npipes w' = npipes w2"
    and keep: "\<And>d. fdt w2 d \<noteq> None \<Longrightarrow> fdt w' d = fdt w2 d"
    and out: "(fd_out last = STDOUT_FILENO \<and> fd_err last = STDERR_FILENO) \<or>
     (fdt w2 (fd_out last) = None \<and> fdt w' (fd_out last) \<noteq> None \<and>
      (fd_err last = STDERR_FILENO \<or> fd_err last = fd_out last))"
    by (rule parse_wiring_ok_stages) blast
  define n where "n = length ps"
  define al where "al = npipes w"
  let ?ins = "map fd_in ps @ [f]"
  from parse_stages_wired [OF st] have
    keep1: "\<And>d. fdt w d \<noteq> None \<Longrightarrow> fdt w2 d = fdt w d"
    and s0: "?ins ! 0 = STDIN_FILENO"
    and sk: "\<And>k. k < n \<Longrightarrow>
        fdt w2 (fd_out (ps ! k)) = Some (PipeWrite (al + k)) \<and>
        fdt w2 (?ins ! Suc k) = Some (PipeRead (al + k)) \<and>
        fdt w (fd_out (ps ! k)) = None \<and>
        fdt w (?ins ! Suc k) = None \<and>
        (fd_err (ps ! k) = STDERR_FILENO \<or> fd_err (ps ! k) = fd_out (ps ! k))"
    by (simp_all add: stages_wired_def w1 n_def al_def)
  have len: "length procs = Suc n" by (simp add: procs n_def)
  have nth_lt: "procs ! k = ps ! k" if "k < n" for k
    using that by (simp add: procs nth_append n_def)
  have nth_n: "procs ! n = last" by (simp add: procs n_def)
  have ins: "fd_in (procs ! k) = ?ins ! k" if "k \<le> n" for k
  proof -
    have "map fd_in procs = ?ins" by (simp add: procs last)
    moreover have "k < length procs" using that len by simp
    ultimately show ?thesis using nth_map [of k procs fd_in] by simp
  qed
  have high: "2 < d" if "fdt w d = None" for d
  proof -
    have "d \<noteq> 0" using that std(1) by (cases "d = 0") simp_all
    moreover have "d \<noteq> 1" using that std(2) by (cases "d = 1") simp_all
    moreover have "d \<noteq> 2" using that std(3) by (cases "d = 2") simp_all
    ultimately show ?thesis by simp
  qed
  have high2: "2 < d" if "fdt w2 d = None" for d
  proof -
    have "fdt w d = None" using keep1 [of d] that by (cases "fdt w d") simp_all
    then show ?thesis by (rule high)
  qed
  have std2: "fdt w' d \<noteq> None" if "d = 0 \<or> d = 1 \<or> d = 2" for d
  proof -
    from that std have "fdt w d \<noteq> None" by auto
    with keep1 [of d] have "fdt w2 d \<noteq> None" by simp
    with keep [of d] show ?thesis by simp
  qed
  have IN: "(k = 0 \<and> fd_in (procs ! k) = STDIN_FILENO) \<or>
      (0 < k \<and> fdt w2 (fd_in (procs ! k)) = Some (PipeRead (al + (k - 1))) \<and>
       fdt w (fd_in (procs ! k)) = None)" if "k \<le> n" for k
  proof (cases k)
    case 0
    with ins [OF that] s0 show ?thesis by simp
  next
    case (Suc j)
    with that have "j < n" by simp
    from sk [OF this] ins [OF that] show ?thesis by (simp add: Suc)
  qed
  have OUT: "fdt w2 (fd_out (procs ! k)) = Some (PipeWrite (al + k)) \<and>
      fdt w (fd_out (procs ! k)) = None \<and>
      (fd_err (procs ! k) = STDERR_FILENO \<or> fd_err (procs ! k) = fd_out (procs ! k))"
    if "k < n" for k
    using sk [OF that] by (simp add: nth_lt [OF that])
  have LAST: "(fd_out (procs ! n) = STDOUT_FILENO \<and> fd_err (procs ! n) = STDERR_FILENO) \<or>
     (fdt w2 (fd_out (procs ! n)) = None \<and> fdt w' (fd_out (procs ! n)) \<noteq> None \<and>
      (fd_err (procs ! n) = STDERR_FILENO \<or> fd_err (procs ! n) = fd_out (procs ! n)))"
    using out by (simp add: nth_n)
  have in_ok: "(fd_in (procs ! k) = STDIN_FILENO \<or> 2 < fd_in (procs ! k)) \<and>
      fdt w' (fd_in (procs ! k)) \<noteq> None" if "k \<le> n" for k
    using IN [OF that]
  proof
    assume "k = 0 \<and> fd_in (procs ! k) = STDIN_FILENO"
    then show ?thesis using std2 [of 0] by auto
  next
    assume a: "0 < k \<and> fdt w2 (fd_in (procs ! k)) = Some (PipeRead (al + (k - 1))) \<and>
       fdt w (fd_in (procs ! k)) = None"
    then have "2 < fd_in (procs ! k)" using high by blast
    moreover have "fdt w' (fd_in (procs ! k)) \<noteq> None"
      using a keep [of "fd_in (procs ! k)"] by simp
    ultimately show ?thesis by auto
  qed
  have out_ok: "(fd_out (procs ! k) = STDOUT_FILENO \<or> 2 < fd_out (procs ! k)) \<and>
      fdt w' (fd_out (procs ! k)) \<noteq> None \<and>
      (fd_err (procs ! k) = STDERR_FILENO \<or> 2 < fd_err (procs ! k)) \<and>
      fdt w' (fd_err (procs ! k)) \<noteq> None" if "k \<le> n" for k
  proof (cases "k < n")
    case True
    from OUT [OF True] have o: "fdt w2 (fd_out (procs ! k)) \<noteq> None"
      and h: "2 < fd_out (procs ! k)"
      and e: "fd_err (procs ! k) = STDERR_FILENO \<or> fd_err (procs ! k) = fd_out (procs ! k)"
      using high by auto
    from o keep [of "fd_out (procs ! k)"] have o': "fdt w' (fd_out (procs ! k)) \<noteq> None"
      by simp
    from e show ?thesis
    proof
      assume "fd_err (procs ! k) = STDERR_FILENO"
      with h o' std2 [of 2] show ?thesis by auto
    next
      assume "fd_err (procs ! k) = fd_out (procs ! k)"
      with h o' show ?thesis by auto
    qed
  next
    case False
    with that have k: "k = n" by simp
    from LAST show ?thesis
    proof
      assume "fd_out (procs ! n) = STDOUT_FILENO \<and> fd_err (procs ! n) = STDERR_FILENO"
      then show ?thesis using std2 [of 1] std2 [of 2] by (auto simp: k)
    next
      assume a: "fdt w2 (fd_out (procs ! n)) = None \<and> fdt w' (fd_out (procs ! n)) \<noteq> None \<and>
        (fd_err (procs ! n) = STDERR_FILENO \<or> fd_err (procs ! n) = fd_out (procs ! n))"
      then have h: "2 < fd_out (procs ! n)" using high2 by blast
      from a have "fd_err (procs ! n) = STDERR_FILENO \<or> fd_err (procs ! n) = fd_out (procs ! n)"
        by simp
      then show ?thesis
      proof
        assume "fd_err (procs ! n) = STDERR_FILENO"
        with a h std2 [of 2] show ?thesis by (auto simp: k)
      next
        assume "fd_err (procs ! n) = fd_out (procs ! n)"
        with a h show ?thesis by (auto simp: k)
      qed
    qed
  qed
  define tag where "tag k d \<longleftrightarrow>
      (0 < k \<and> fdt w2 d = Some (PipeRead (al + (k - 1)))) \<or>
      (k < n \<and> fdt w2 d = Some (PipeWrite (al + k))) \<or>
      (k = n \<and> fdt w2 d = None)" for k d
  have tag_out: "tag k (fd_out (procs ! k))" if "k \<le> n" "fd_out (procs ! k) \<noteq> STDOUT_FILENO" for k
  proof (cases "k < n")
    case True
    from OUT [OF True] True show ?thesis by (simp add: tag_def)
  next
    case False
    with that have k: "k = n" by simp
    with LAST that(2) show ?thesis by (auto simp: tag_def)
  qed
  have tag_err: "tag k (fd_err (procs ! k))" if "k \<le> n" "fd_err (procs ! k) \<noteq> STDERR_FILENO" for k
  proof (cases "k < n")
    case True
    from OUT [OF True] True that(2) show ?thesis by (auto simp: tag_def)
  next
    case False
    with that have k: "k = n" by simp
    with LAST that(2) show ?thesis by (auto simp: tag_def)
  qed
  have tag_in: "tag k (fd_in (procs ! k))" if "k \<le> n" "fd_in (procs ! k) \<noteq> STDIN_FILENO" for k
    using IN [OF that(1)] that(2) by (auto simp: tag_def)
  have tagged: "tag k d" if "k \<le> n" "d \<in> nonstd_fds (procs ! k)" for k d
    using that tag_in [of k] tag_out [of k] tag_err [of k]
    by (auto simp: nonstd_fds_def split: if_splits)
  have tag_inj: "i = j" if "tag i d" "tag j d" "i \<le> n" "j \<le> n" for i j d
    using that unfolding tag_def by (elim disjE conjE) simp_all
  have disjoint: "nonstd_fds (procs ! i) \<inter> nonstd_fds (procs ! j) = {}"
    if "i \<le> n" "j \<le> n" "i \<noteq> j" for i j
  proof -
    have False if d: "d \<in> nonstd_fds (procs ! i)" "d \<in> nonstd_fds (procs ! j)" for d
      using tag_inj [OF tagged [OF \<open>i \<le> n\<close> d(1)] tagged [OF \<open>j \<le> n\<close> d(2)] \<open>i \<le> n\<close> \<open>j \<le> n\<close>]
        \<open>i \<noteq> j\<close> by simp
    then show ?thesis by blast
  qed
  have each: "stdish p \<and> (\<forall>d \<in> triple p. fdt w' d \<noteq> None)" if "p \<in> set procs" for p
  proof -
    from that obtain k where k: "k < length procs" "p = procs ! k"
      by (auto simp: in_set_conv_nth)
    then have "k \<le> n" using len by simp
    from in_ok [OF this] out_ok [OF this] show ?thesis
      by (simp add: stdish_def triple_def k)
  qed
  show ?thesis
    unfolding wired_def using each disjoint len by (simp add: less_Suc_eq_le)
qed


section \<open>A command without operators (C5)\<close>

text \<open>
  The whitespace-split words of a line, as the specification describes them: the line is
  cut at spaces and tabs (the separators of section 4.1 of the specification), and the
  empty pieces are dropped. \<open>words_from cur s\<close> holds the word read so far in \<open>cur\<close>.
\<close>

primrec words_from :: "string \<Rightarrow> string \<Rightarrow> string list" where
  "words_from cur [] = (if cur = [] then [] else [cur])"
| "words_from cur (c # cs) =
     (if is_blank c then (if cur = [] then [] else [cur]) @ words_from [] cs
      else words_from (cur @ [c]) cs)"

definition whitespace_split :: "string \<Rightarrow> string list" where
  "whitespace_split line = words_from [] line"

lemma words_from_cur:
  "cur \<noteq> [] \<Longrightarrow> words_from cur s =
     (cur @ takeWhile (\<lambda>c. \<not> is_blank c) s) # words_from [] (dropWhile (\<lambda>c. \<not> is_blank c) s)"
  by (induction s arbitrary: cur) auto

lemma words_from_blank: "words_from [] (dropWhile is_blank s) = words_from [] s"
  by (induction s) auto

lemma words_from_Cons:
  "\<not> is_blank c \<Longrightarrow> words_from [] (c # s) =
     (c # takeWhile (\<lambda>c. \<not> is_blank c) s) # words_from [] (dropWhile (\<lambda>c. \<not> is_blank c) s)"
  using words_from_cur [of "[c]" s] by simp

lemma arg_char_no_ops:
  "\<forall>c \<in> set s. c \<noteq> CHR ''|'' \<and> c \<noteq> CHR ''>'' \<Longrightarrow>
     takeWhile arg_char s = takeWhile (\<lambda>c. \<not> is_blank c) s \<and>
     dropWhile arg_char s = dropWhile (\<lambda>c. \<not> is_blank c) s"
  by (induction s) (auto simp: arg_char_def is_blank_def)

lemma tokens_of_no_ops:
  "\<forall>c \<in> set s. c \<noteq> CHR ''|'' \<and> c \<noteq> CHR ''>'' \<Longrightarrow> tokens_of s = words_from [] s"
proof (induction s rule: tokens_of.induct)
  case (1 cmdline)
  show ?case
  proof (cases "dropWhile is_blank cmdline")
    case Nil
    have "read_next_token cmdline = None"
      unfolding read_next_token_def Nil by simp
    then have "tokens_of cmdline = []"
      by (simp add: tokens_of.simps [of cmdline])
    moreover have "words_from [] cmdline = []"
      using words_from_blank [of cmdline] Nil by simp
    ultimately show ?thesis by simp
  next
    case (Cons c rest)
    have sub: "set (dropWhile is_blank cmdline) \<subseteq> set cmdline"
      by (rule set_dropWhileD [THEN subsetI]) 
    have nb: "\<not> is_blank c"
      using Cons hd_dropWhile [of is_blank cmdline] by auto
    have ops: "\<forall>x \<in> set (c # rest). x \<noteq> CHR ''|'' \<and> x \<noteq> CHR ''>''"
      using sub "1.prems" Cons by auto
    then have rt: "read_next_token cmdline =
        Some (c # takeWhile (\<lambda>c. \<not> is_blank c) rest, dropWhile (\<lambda>c. \<not> is_blank c) rest)"
      unfolding read_next_token_def Cons using arg_char_no_ops [of rest] by simp
    have "set (dropWhile (\<lambda>c. \<not> is_blank c) rest) \<subseteq> set rest"
      by (rule set_dropWhileD [THEN subsetI])
    with ops have ops': "\<forall>x \<in> set (dropWhile (\<lambda>c. \<not> is_blank c) rest). x \<noteq> CHR ''|'' \<and> x \<noteq> CHR ''>''"
      by auto
    have "tokens_of cmdline =
        (c # takeWhile (\<lambda>c. \<not> is_blank c) rest) # words_from [] (dropWhile (\<lambda>c. \<not> is_blank c) rest)"
      using "1.IH" [OF rt refl ops'] rt by (simp add: tokens_of.simps [of cmdline])
    also have "\<dots> = words_from [] (c # rest)"
      using words_from_Cons [OF nb] by simp
    also have "\<dots> = words_from [] cmdline"
      using words_from_blank [of cmdline] Cons by simp
    finally show ?thesis .
  qed
qed


lemma words_from_nonempty: "wd \<in> set (words_from cur s) \<Longrightarrow> wd \<noteq> []"
  by (induction s arbitrary: cur) (auto split: if_splits)

lemma words_from_chars:
  "wd \<in> set (words_from cur s) \<Longrightarrow> x \<in> set wd \<Longrightarrow> x \<in> set cur \<union> set s"
  by (induction s arbitrary: cur) (fastforce split: if_splits)+

lemma read_args_all:
  "\<forall>t \<in> set toks. is_arg (Some t) \<Longrightarrow> length args + length toks \<le> ARG_MAX' \<Longrightarrow>
     read_args args toks = Inr (args @ toks, [])"
  by (induction toks arbitrary: args) auto

lemma read_argv_all:
  "\<forall>t \<in> set toks. is_arg (Some t) \<Longrightarrow> toks \<noteq> [] \<Longrightarrow> length toks \<le> ARG_MAX' \<Longrightarrow>
     read_argv toks = Inr (toks, [])"
  by (simp add: read_argv_def read_args_all)

lemma is_arg_word:
  "wd \<noteq> [] \<Longrightarrow> \<forall>c \<in> set wd. c \<noteq> CHR ''|'' \<and> c \<noteq> CHR ''>'' \<Longrightarrow> is_arg (Some wd)"
  by (cases wd) (auto simp: is_arg_def first_char_def)

text \<open>
  A line without operators, up to line 357. For every line without \<open>|\<close> and \<open>>\<close> whose
  whitespace-split words are between 1 and 16 in number, each shorter than the token
  buffer, \<open>parse_command\<close> reaches line 357 with exactly one process in \<open>procs\<close>; its
  argument list is the list of the words, in order, and its descriptors are the three
  standard streams. There \<open>parse_command\<close> calls \<open>free(tokens)\<close>; it does not return the
  process, and \<open>main\<close> does not get to look at it. (The allocations of the tokens and of
  the process are assumed to succeed.)
\<close>

theorem single_stage_wired:
  assumes ops: "\<forall>c \<in> set line. c \<noteq> CHR ''|'' \<and> c \<noteq> CHR ''>''"
    and n1: "1 \<le> length (whitespace_split line)"
    and n16: "length (whitespace_split line) \<le> ARG_MAX'"
    and short: "\<forall>wd \<in> set (whitespace_split line). length wd < TOKEN_MAX"
    and mem: "length (whitespace_split line) < mallocs_left w"
  shows "snd (parse_wiring w line) =
           Inr [\<lparr>argv = whitespace_split line, fd_in = STDIN_FILENO, fd_out = STDOUT_FILENO,
                  fd_err = STDERR_FILENO\<rparr>] \<and>
         snd (parse_command w line) = Inl InvalidFree \<and>
         snd (main_iteration w line) = Stopped InvalidFree"
proof -
  let ?ws = "whitespace_split line"
  have toks: "tokens_of line = ?ws"
    using tokens_of_no_ops [OF ops] by (simp add: whitespace_split_def)
  have ne: "?ws \<noteq> []" using n1 by auto
  have args: "\<forall>t \<in> set ?ws. is_arg (Some t)"
  proof
    fix t assume "t \<in> set ?ws"
    then have "t \<noteq> []" and "\<forall>x \<in> set t. x \<in> set line"
      using words_from_nonempty [of t "[]" line] words_from_chars [of t "[]" line]
      by (auto simp: whitespace_split_def)
    with ops show "is_arg (Some t)" by (intro is_arg_word) auto
  qed
  have ra: "read_argv ?ws = Inr (?ws, [])"
    using read_argv_all [OF args ne n16] .
  have ps: "parse_stages w' 0 STDIN_FILENO ?ws = (w', Inr ([], ?ws, STDIN_FILENO, []))" for w'
    by (simp add: parse_stages.simps [of w' 0 0 ?ws] ra)
  have fit: "tokens_fit ?ws"
    using short n16 by (simp add: tokens_fit_def list_all_iff ARG_MAX'_def CMDLINE_MAX_def)
  have "parse_wiring w line =
      finish_command (w\<lparr>mallocs_left := mallocs_left w - Suc (length ?ws)\<rparr>) [] ?ws STDIN_FILENO []"
    using parse_wiring_unfold [of line w] ne fit mem by (simp add: toks ps)
  then have 1: "snd (parse_wiring w line) =
           Inr [\<lparr>argv = ?ws, fd_in = STDIN_FILENO, fd_out = STDOUT_FILENO,
                  fd_err = STDERR_FILENO\<rparr>]"
    by (simp add: finish_command_def terminate_procs_def PROCESS_MAX_def)
  then have 2: "snd (parse_command w line) = Inl InvalidFree"
    by (simp add: parse_command_wiring)
  then have "snd (main_iteration w line) = Stopped InvalidFree"
    by (cases "parse_command w line") (simp add: main_iteration_def returns_failure_def)
  with 1 2 show ?thesis by simp
qed

lemma w0_mallocs: "mallocs_left w0 = 64" by (simp add: w0_def)

theorem single_stage_wired_witness:
  "snd (parse_wiring w0 ''cat  a.txt b.txt'') =
     Inr [\<lparr>argv = [''cat'', ''a.txt'', ''b.txt''], fd_in = STDIN_FILENO,
            fd_out = STDOUT_FILENO, fd_err = STDERR_FILENO\<rparr>] \<and>
   snd (main_iteration w0 ''cat  a.txt b.txt'') = Stopped InvalidFree"
proof -
  have ws: "whitespace_split ''cat  a.txt b.txt'' = [''cat'', ''a.txt'', ''b.txt'']"
    by (simp add: whitespace_split_def is_blank_def)
  show ?thesis
    using single_stage_wired [of "''cat  a.txt b.txt''" w0]
    by (simp add: ws ARG_MAX'_def TOKEN_MAX_def w0_mallocs)
qed

text \<open>
  C5 says that on such a line the parser yields the one stage. On the line \<open>ls  -l foo\<close>
  \<open>parse_command\<close> builds that stage and then, at line 357, calls \<open>free\<close> on the array
  \<open>tokens\<close> of its stack frame: it does not return \<open>0\<close>, and \<open>main\<close> is left without a
  pipeline.
\<close>

theorem single_stage_not_returned:
  "snd (parse_wiring w0 ''ls  -l foo'') =
     Inr [\<lparr>argv = [''ls'', ''-l'', ''foo''], fd_in = STDIN_FILENO, fd_out = STDOUT_FILENO,
            fd_err = STDERR_FILENO\<rparr>] \<and>
   snd (parse_command w0 ''ls  -l foo'') = Inl InvalidFree \<and>
   snd (main_iteration w0 ''ls  -l foo'') = Stopped InvalidFree"
  by code_simp

section \<open>\<open>parse_command\<close> does not return \<open>0\<close>\<close>

text \<open>
  Whatever the line and the state of the shell, \<open>parse_command\<close> does not return \<open>0\<close>: it
  returns \<open>-1\<close>, or the shell exits, or it runs into undefined behaviour, at the latest in
  \<open>free(tokens)\<close>. So \<open>main\<close> never gets to the choice between the builtins and
  \<open>run_procs\<close>.
\<close>

theorem parse_command_never_returns_0:
  "(\<exists>e. snd (parse_command w cmdline) = Inl e) \<and>
   (\<exists>e. snd (main_iteration w cmdline) = Rejected e \<or>
        snd (main_iteration w cmdline) = Stopped e)"
proof (cases "parse_command w cmdline")
  case (Pair w1 res)
  from Pair obtain e where "res = Inl e"
    by (auto simp: parse_command_def split: prod.splits sum.splits)
  with Pair show ?thesis by (auto simp: main_iteration_def)
qed

section \<open>More stages than \<open>PROCESS_MAX\<close> (C2)\<close>

text \<open>
  C2 says that a line of more than 8 stages is rejected with \<open>TooManyProcesses\<close> before
  any process is spawned. \<open>parse_command\<close> has no check of the number of stages
  (\<open>read_argv\<close> has one for \<open>ARG_MAX\<close>): on the nine-stage line below it wires the first
  eight stages, makes seven pipes, and at the eighth pipe token stores the ninth process
  to \<open>procs[8]\<close>, beyond the \<open>PROCESS_MAX\<close> entries of the array. That is not a return of
  \<open>-1\<close>, and no message is printed.
\<close>

theorem nine_stages_overrun:
  "snd (main_iteration w0 ''a|b|c|d|e|f|g|h|i'') = Stopped ProcsOverrun \<and>
   snd (parse_command w0 ''a|b|c|d|e|f|g|h|i'') = Inl ProcsOverrun \<and>
   npipes (fst (parse_command w0 ''a|b|c|d|e|f|g|h|i'')) = 7 \<and>
   \<not> returns_failure ProcsOverrun \<and> error_message ProcsOverrun = None"
  by code_simp

section \<open>Builtins (C9)\<close>

text \<open>
  C9 says that a builtin is dispatched exactly when its name is the first argument of a
  single command without pipe and redirection. On the lines \<open>pwd\<close>, \<open>exit\<close>, \<open>cd /tmp\<close>
  and \<open>sls\<close>, \<open>parse_command\<close> reaches \<open>free(tokens)\<close> at line 357 and \<open>main\<close> does not get
  to the comparison of \<open>procs[0]->argv[0]\<close> with the names of the builtins. That
  comparison, \<open>dispatch\<close>, looks at the first argument of the first stage only: on the
  pipeline that \<open>parse_command\<close> has wired for \<open>pwd | cat > out.txt\<close> when it reaches line
  357 it chooses the builtin \<open>pwd\<close>.
\<close>

theorem builtin_not_dispatched:
  "snd (main_iteration w0 ''pwd'') = Stopped InvalidFree \<and>
   snd (main_iteration w0 ''exit'') = Stopped InvalidFree \<and>
   snd (main_iteration w0 ''cd /tmp'') = Stopped InvalidFree \<and>
   snd (main_iteration w0 ''sls'') = Stopped InvalidFree \<and>
   map_sum id dispatch (snd (parse_wiring w0 ''pwd'')) = Inr BuiltinPwd \<and>
   map_sum id dispatch (snd (parse_wiring w0 ''pwd | cat > out.txt'')) = Inr BuiltinPwd \<and>
   snd (parse_wiring w0 ''pwd | cat > out.txt'') =
     Inr [\<lparr>argv = [''pwd''], fd_in = 0, fd_out = 4, fd_err = 2\<rparr>,
          \<lparr>argv = [''cat''], fd_in = 3, fd_out = 5, fd_err = 2\<rparr>]"
  by code_simp

section \<open>Exit statuses in pipeline order (C3)\<close>

lemma map_of_remove1_other:
  "k \<noteq> k' \<Longrightarrow> map_of (remove1 (k', v) evts) k = map_of evts k"
  by (induction evts) auto

lemma wait_children_statuses:
  assumes "n \<le> length pids" and "distinct pids"
    and "\<forall>i < n. map_of evts (pids ! i) \<noteq> None"
  shows "\<exists>evts'. wait_children n pids acc evts =
           Some (map (\<lambda>i. int (WEXITSTATUS (the (map_of evts (pids ! i))))) [0..<n] @ acc, evts')"
  using assms
proof (induction n arbitrary: acc evts)
  case 0
  then show ?case by simp
next
  case (Suc n)
  from Suc.prems obtain st where st: "map_of evts (pids ! n) = Some st" by auto
  let ?evts = "remove1 (pids ! n, st) evts"
  have same: "map_of ?evts (pids ! i) = map_of evts (pids ! i)" if "i < n" for i
  proof -
    from that Suc.prems have "pids ! i \<noteq> pids ! n"
      by (simp add: nth_eq_iff_index_eq)
    then show ?thesis by (rule map_of_remove1_other)
  qed
  have "\<forall>i < n. map_of ?evts (pids ! i) \<noteq> None"
    using same Suc.prems(3) by simp
  from Suc.IH [OF _ Suc.prems(2) this, of "int (WEXITSTATUS st) # acc"] Suc.prems(1)
  obtain evts' where
    "wait_children n pids (int (WEXITSTATUS st) # acc) ?evts =
       Some (map (\<lambda>i. int (WEXITSTATUS (the (map_of ?evts (pids ! i))))) [0..<n] @
             int (WEXITSTATUS st) # acc, evts')"
    by auto
  moreover have "map (\<lambda>i. int (WEXITSTATUS (the (map_of ?evts (pids ! i))))) [0..<n] =
      map (\<lambda>i. int (WEXITSTATUS (the (map_of evts (pids ! i))))) [0..<n]"
    using same by simp
  ultimately show ?case
    by (simp add: sys_waitpid_def st)
qed

lemma map_of_permuted:
  assumes "distinct (map fst evts)" and "mset evts' = mset evts"
  shows "map_of evts' = map_of evts"
proof -
  have "mset (map fst evts') = mset (map fst evts)" using assms(2) by (metis mset_map)
  then have d: "distinct (map fst evts')"
    using assms(1) by (metis mset_eq_imp_distinct_iff)
  have s: "set evts' = set evts" using assms(2) by (rule mset_eq_setD)
  show ?thesis
  proof
    fix k
    show "map_of evts' k = map_of evts k"
    proof (cases "map_of evts k")
      case None
      then have "k \<notin> fst ` set evts" by (simp add: map_of_eq_None_iff)
      then have "map_of evts' k = None" using s by (simp add: map_of_eq_None_iff)
      with None show ?thesis by simp
    next
      case (Some v)
      then have "(k, v) \<in> set evts'" using s assms(1) by simp
      then show ?thesis using d Some by simp
    qed
  qed
qed

lemma reported_statuses:
  "reported (map (\<lambda>i. int (f i)) is @ [- 1]) = map (\<lambda>i. int (f i)) is"
  by (induction "is") (auto simp: reported_def)

definition invoked :: "child \<Rightarrow> string list option" where
  \<comment> \<open>the arguments with which the child calls \<open>execvp\<close>, if it gets there\<close>
  "invoked kid = (case kid of Execvp t args \<Rightarrow> Some args | Dup2Exit \<Rightarrow> None)"

lemma wired_invoked:
  assumes "wired t procs" and "i < length procs"
  shows "invoked (exec_proc (procs ! i)
             (fold close_nonstd_fds (drop (Suc i) procs)
                (fold close_nonstd_fds (take i procs) t))) = Some (argv (procs ! i))"
  using wired_child [OF assms] by (auto simp: invoked_def)

text \<open>
  Statuses of a pipeline that fits the arrays. Let \<open>run_procs\<close> be called on \<open>N\<close>
  processes, \<open>N < PROCESS_MAX\<close>, let every \<open>fork\<close> succeed and every child terminate
  once. Whatever the order \<open>terminations w\<close> in which the children terminate (any
  permutation of \<open>evts\<close>), \<open>run_procs\<close> returns; the child at position \<open>i\<close> is the one forked
  for \<open>procs[i]\<close>; the list of statuses has the exit status of that child at position
  \<open>i\<close>, for each \<open>i < N\<close>, and the sentinel \<open>-1\<close> after them; and the loop of \<open>main\<close> that
  prints the statuses reports exactly these \<open>N\<close> statuses.
\<close>

theorem statuses_in_pipeline_order:
  assumes fits: "length procs < PROCESS_MAX"
    and forks: "length procs \<le> forks_left w"
    and once: "distinct (map fst evts)"
    and any_order: "mset (terminations w) = mset evts"
    and all_terminate: "\<forall>i < length procs. Suc (last_pid w) + i \<in> fst ` set evts"
  shows "\<exists>w' kids statuses.
           run_procs w procs = Inr (w', kids, statuses) \<and>
           length kids = length procs \<and>
           (\<forall>i < length procs.
              kids ! i =
                (Suc (last_pid w) + i,
                 exec_proc (procs ! i)
                   (fold close_nonstd_fds (drop (Suc i) procs)
                      (fold close_nonstd_fds (take i procs) (fdt w))))) \<and>
           statuses =
             map (\<lambda>i. int (WEXITSTATUS (the (map_of evts (fst (kids ! i)))))) [0..<length procs]
               @ [- 1] \<and>
           reported statuses = take (length procs) statuses \<and>
           length (reported statuses) = length procs"
proof -
  from fits have "0 + length procs < PROCESS_MAX" by simp
  from spawn_children_succeeds [OF this forks] obtain w1 kids where
    sp: "spawn_children 0 w procs = Inr (w1, kids)" and t: "terminations w1 = terminations w"
    by blast
  have len: "length kids = length procs" using spawn_children_length [OF sp] by simp
  have kid: "kids ! i =
                (Suc (last_pid w) + i,
                 exec_proc (procs ! i)
                   (fold close_nonstd_fds (drop (Suc i) procs)
                      (fold close_nonstd_fds (take i procs) (fdt w))))"
    if "i < length procs" for i
    using spawn_children_kids [OF sp that] .
  let ?pids = "map fst kids"
  have pid: "?pids ! i = Suc (last_pid w) + i" if "i < length procs" for i
    using that kid [OF that] len by simp
  have "?pids = map (\<lambda>i. Suc (last_pid w) + i) [0..<length procs]"
    using pid len by (intro nth_equalityI) auto
  then have dist: "distinct ?pids"
    by (simp add: distinct_map inj_on_def)
  have mo: "map_of (terminations w1) = map_of evts"
    using map_of_permuted [OF once, of "terminations w"] any_order t by simp
  have "\<forall>i < length kids. map_of (terminations w1) (?pids ! i) \<noteq> None"
    using all_terminate pid len by (simp add: mo map_of_eq_None_iff)
  from wait_children_statuses [OF _ dist this, of "[- 1]"] obtain evts' where
    wt: "wait_children (length kids) ?pids [- 1] (terminations w1) =
       Some (map (\<lambda>i. int (WEXITSTATUS (the (map_of (terminations w1) (?pids ! i)))))
               [0..<length kids] @ [- 1], evts')"
    by auto
  let ?sts = "map (\<lambda>i. int (WEXITSTATUS (the (map_of evts (fst (kids ! i)))))) [0..<length procs]
               @ [- 1]"
  have eq: "map (\<lambda>i. int (WEXITSTATUS (the (map_of (terminations w1) (?pids ! i)))))
               [0..<length kids] @ [- 1] = ?sts"
    using len by (simp add: mo)
  have run: "run_procs w procs = Inr (w1\<lparr>terminations := evts'\<rparr>, kids, ?sts)"
    using sp wt eq len fits by (simp add: run_procs_def)
  have rep: "reported ?sts =
      map (\<lambda>i. int (WEXITSTATUS (the (map_of evts (fst (kids ! i)))))) [0..<length procs]"
    by (rule reported_statuses)
  show ?thesis
    using run len kid rep by auto
qed

text \<open>
  The pipeline that \<open>parse_command\<close> has wired for \<open>a | b | c\<close> when it reaches line 357,
  in the shell as it is then: the children terminate in the order 103, 101, 102, each
  of them calls \<open>execvp\<close>, and the statuses are in the order of the stages.
\<close>

theorem statuses_in_pipeline_order_witness:
  "\<exists>w1 procs w' kids.
     parse_wiring w0 ''a | b | c'' = (w1, Inr procs) \<and>
     terminations w1 = [(103, 0), (101, 256), (102, 512)] \<and>
     run_procs w1 procs = Inr (w', kids, [1, 2, 0, - 1]) \<and>
     map fst kids = [101, 102, 103] \<and>
     map (\<lambda>(pid, kid). invoked kid) kids = [Some [''a''], Some [''b''], Some [''c'']]"
proof -
  let ?l = "''a | b | c''"
  let ?procs = "[\<lparr>argv = [''a''], fd_in = 0, fd_out = 4, fd_err = 2\<rparr>,
                 \<lparr>argv = [''b''], fd_in = 3, fd_out = 6, fd_err = 2\<rparr>,
                 \<lparr>argv = [''c''], fd_in = 5, fd_out = 1, fd_err = 2\<rparr>]"
  let ?evts = "[(101::nat, 256::nat), (102, 512), (103, 0)]"
  have p: "snd (parse_wiring w0 ?l) = Inr ?procs" by code_simp
  obtain w1 where ok: "parse_wiring w0 ?l = (w1, Inr ?procs)"
    using p by (cases "parse_wiring w0 ?l") simp
  have "terminations (fst (parse_wiring w0 ?l)) = [(103, 0), (101, 256), (102, 512)]"
    by code_simp
  then have t: "terminations w1 = [(103, 0), (101, 256), (102, 512)]" using ok by simp
  have "forks_left (fst (parse_wiring w0 ?l)) = 16" by code_simp
  then have f: "length ?procs \<le> forks_left w1" using ok by simp
  have "last_pid (fst (parse_wiring w0 ?l)) = 100" by code_simp
  then have lp: "last_pid w1 = 100" using ok by simp
  have c: "length ?procs < PROCESS_MAX" by (simp add: PROCESS_MAX_def)
  have d: "distinct (map fst ?evts)" by simp
  have m: "mset (terminations w1) = mset ?evts" by (simp add: t)
  have a: "\<forall>i < length ?procs. Suc (last_pid w1) + i \<in> fst ` set ?evts"
    by (simp add: lp All_less_Suc numeral_3_eq_3)
  from statuses_in_pipeline_order [OF c f d m a] obtain w' kids statuses where
    r: "run_procs w1 ?procs = Inr (w', kids, statuses)"
    and l: "length kids = length ?procs"
    and k: "\<forall>i < length ?procs. kids ! i =
                (Suc (last_pid w1) + i,
                 exec_proc (?procs ! i)
                   (fold close_nonstd_fds (drop (Suc i) ?procs)
                      (fold close_nonstd_fds (take i ?procs) (fdt w1))))"
    and s: "statuses = map (\<lambda>i. int (WEXITSTATUS (the (map_of ?evts (fst (kids ! i))))))
              [0..<length ?procs] @ [- 1]"
    by auto
  have kf: "fst (kids ! i) = Suc (last_pid w1) + i" if "i < length ?procs" for i
    using k [rule_format, OF that] by simp
  have ks: "snd (kids ! i) = exec_proc (?procs ! i)
                   (fold close_nonstd_fds (drop (Suc i) ?procs)
                      (fold close_nonstd_fds (take i ?procs) (fdt w1)))"
    if "i < length ?procs" for i
    using k [rule_format, OF that] by simp
  have k0: "fst (kids ! 0) = 101" and k1: "fst (kids ! Suc 0) = 102"
    and k2: "fst (kids ! Suc (Suc 0)) = 103"
    using kf [of 0] kf [of "Suc 0"] kf [of "Suc (Suc 0)"] by (simp_all add: lp)
  have std: "fdt w0 STDIN_FILENO \<noteq> None" "fdt w0 STDOUT_FILENO \<noteq> None"
    "fdt w0 STDERR_FILENO \<noteq> None"
    by (simp_all add: w0_def)
  have w: "wired (fdt w1) ?procs"
    using parse_wiring_wired [OF ok std] .
  have ki: "invoked (snd (kids ! i)) = Some (argv (?procs ! i))" if "i < length ?procs" for i
    unfolding ks [OF that] by (rule wired_invoked [OF w that])
  have i0: "invoked (snd (kids ! 0)) = Some [''a'']"
    and i1: "invoked (snd (kids ! Suc 0)) = Some [''b'']"
    and i2: "invoked (snd (kids ! Suc (Suc 0))) = Some [''c'']"
    using ki [of 0] ki [of "Suc 0"] ki [of "Suc (Suc 0)"] by simp_all
  have l3: "length kids = 3" using l by simp
  have pids: "map fst kids = [101, 102, 103]"
    using l3 k0 k1 k2 by (intro nth_equalityI) (auto simp: less_Suc_eq numeral_3_eq_3)
  have inv: "map (\<lambda>(pid, kid). invoked kid) kids = [Some [''a''], Some [''b''], Some [''c'']]"
    using l3 i0 i1 i2
    by (intro nth_equalityI) (auto simp: less_Suc_eq numeral_3_eq_3 case_prod_unfold)
  have "statuses = [1, 2, 0, - 1]"
    using k0 k1 k2 by (simp add: s upt_rec WEXITSTATUS_def numeral_3_eq_3)
  with r have r': "run_procs w1 ?procs = Inr (w', kids, [1, 2, 0, - 1])" by simp
  from ok t r' pids inv show ?thesis by (intro exI conjI)
qed

text \<open>
  C3 says this of every valid pipeline, and a pipeline of 8 stages is valid. On the line
  of eight stages below, the loop of \<open>parse_command\<close> (entered after the 16 allocations
  for the 15 tokens and the first process) wires eight processes, which fill the
  \<open>PROCESS_MAX\<close> entries of \<open>procs\<close>, and line 355 stores the terminator to \<open>procs[8]\<close>,
  beyond the end of the array. \<open>run_procs\<close>, called on the eight processes, forks eight children;
  then its loop reads \<open>procs[8]\<close>, and the sentinel is stored to \<open>statuses[8]\<close>, beyond the
  end of that array: it has not returned a list of eight statuses and a sentinel.
  (\<open>argv\<close> is declared with \<open>ARG_MAX + 1\<close> entries, \<open>procs\<close> and \<open>statuses\<close> with
  \<open>PROCESS_MAX\<close>.)
\<close>

theorem eight_stages_overrun:
  "snd (parse_command w0 ''a|b|c|d|e|f|g|h'') = Inl ProcsOverrun \<and>
   (case parse_stages (w0\<lparr>mallocs_left := mallocs_left w0 - 16\<rparr>) 0 STDIN_FILENO
           (tokens_of ''a|b|c|d|e|f|g|h'') of
      (w1, Inr (ps, args, cur_in, tok_iter)) \<Rightarrow>
        (let procs = ps @ [\<lparr>argv = args, fd_in = cur_in, fd_out = STDOUT_FILENO,
                              fd_err = STDERR_FILENO\<rparr>]
         in Some (map argv procs, length procs = PROCESS_MAX, snd (terminate_procs w1 procs),
                  case run_procs w1 procs of Inl s \<Rightarrow> Some s | Inr r \<Rightarrow> None))
    | (w1, Inl e) \<Rightarrow> None) =
   Some (map (\<lambda>c. [[c]]) ''abcdefgh'', True, Inl ProcsOverrun, Some ArrayOverrun)"
  by code_simp

section \<open>A stage without arguments (C8)\<close>

text \<open>
  The theorems of this and of the next sections are about lines that \<open>parse_command\<close>
  rejects before it reaches line 357. Their hypotheses say that the line fits the arrays
  (\<open>tokens_fit\<close>, and fewer than \<open>PROCESS_MAX\<close> pipe tokens before the point of rejection)
  and that the calls of \<open>malloc\<close> and \<open>pipe\<close> before that point succeed: one allocation per
  token, one for the first process and one per pipe token, and two descriptors per pipe
  token.

  C8, as amended. Let the tokens of a line be zero or more well-formed stages, each
  followed by a pipe token, and then no argument token, so that a stage is expected and
  has no argument. If the line has a token, \<open>parse_command\<close> fails with \<open>MissingCommand\<close>
  (it prints \<open>missing command\<close>); if the line has no token at all (it is empty or blank),
  \<open>parse_command\<close> fails without printing anything (\<open>NoCommand\<close>, line 304). In both
  cases \<open>main\<close> continues with the next line and no process is forked.
\<close>

theorem empty_stage_rejected:
  assumes toks: "tokens_of cmdline = piped groups @ rest"
    and groups: "piped_ok groups"
    and no_arg: "\<not> is_arg (peek rest)"
    and fit: "tokens_fit (tokens_of cmdline)" "length groups < PROCESS_MAX"
    and memory: "length (tokens_of cmdline) + length groups < mallocs_left w"
    and fds: "2 * length groups \<le> free_fds w"
  shows "snd (main_iteration w cmdline) =
           Rejected (if tokens_of cmdline = [] then NoCommand else MissingCommand) \<and>
         same_processes w (fst (main_iteration w cmdline))"
proof -
  let ?toks = "tokens_of cmdline"
  have "snd (parse_wiring w cmdline) = Inl (if ?toks = [] then NoCommand else MissingCommand)"
  proof (cases "?toks = []")
    case True
    then show ?thesis
      by (simp add: parse_wiring_alt CMDLINE_MAX_def)
  next
    case False
    define w1 where "w1 = w\<lparr>mallocs_left := mallocs_left w - Suc (length ?toks)\<rparr>"
    have pc: "parse_wiring w cmdline =
             (case parse_stages w1 0 STDIN_FILENO ?toks of
                (w2, Inl e) \<Rightarrow> (w2, Inl e)
              | (w2, Inr (ps, args, cur_in, tok_iter)) \<Rightarrow>
                  finish_command w2 ps args cur_in tok_iter)"
      using parse_wiring_unfold [OF False fit(1)] memory by (simp add: w1_def)
    have pre: "0 + length groups < PROCESS_MAX" "length groups \<le> mallocs_left w1"
      "2 * length groups \<le> free_fds w1"
      using fit(2) memory fds by (simp_all add: w1_def free_fds_def)
    have stop: "parse_stages w' k c rest = (w', Inl MissingCommand)" for w' k c
      using parse_stages_error [OF read_argv_no_arg [OF no_arg]] .
    from parse_stages_piped [OF groups pre, of STDIN_FILENO rest]
    obtain w2 where "parse_stages w1 0 STDIN_FILENO ?toks = (w2, Inl MissingCommand)"
      unfolding toks by (auto simp: stop)
    with pc False show ?thesis by simp
  qed
  then show ?thesis
    using parse_wiring_same [of w cmdline]
    by (simp add: main_iteration_rejected main_iteration_world returns_failure_def)
qed

text \<open>
  C8 as stated fails on a blank line: the failure is silent, it is not the failure that
  prints \<open>missing command\<close>.
\<close>

theorem silent_empty_line_counterexample:
  "snd (main_iteration w0 ''   '') = Rejected NoCommand \<and>
   error_message NoCommand = None \<and>
   error_message MissingCommand = Some ''missing command''"
  by code_simp

lemma w0_free_fds: "free_fds w0 = 29"
  by code_simp

theorem empty_stage_rejected_witness:
  "snd (main_iteration w0 ''ls -l | wc |'') = Rejected MissingCommand \<and>
   snd (main_iteration w0 ''| wc'') = Rejected MissingCommand \<and>
   last_pid (fst (main_iteration w0 ''ls -l | wc |'')) = last_pid w0"
proof -
  have t1: "tokens_of ''ls -l | wc |'' = piped [([''ls'', ''-l''], ''|''), ([''wc''], ''|'')] @ []"
    by code_simp
  have g1: "piped_ok [([''ls'', ''-l''], ''|''), ([''wc''], ''|'')]"
    by code_simp
  have f1: "tokens_fit (tokens_of ''ls -l | wc |'')" by code_simp
  have c1: "length [([''ls'', ''-l''], ''|''), ([''wc''], ''|'')] < PROCESS_MAX"
    by (simp add: PROCESS_MAX_def)
  have m1: "length (tokens_of ''ls -l | wc |'') +
      length [([''ls'', ''-l''], ''|''), ([''wc''], ''|'')] < mallocs_left w0"
    by (simp add: t1 w0_mallocs)
  have d1: "2 * length [([''ls'', ''-l''], ''|''), ([''wc''], ''|'')] \<le> free_fds w0"
    by (simp add: w0_free_fds)
  have t2: "tokens_of ''| wc'' = piped [] @ [''|'', ''wc'']"
    by code_simp
  have g2: "piped_ok []" by (simp add: piped_ok_def)
  have n2: "\<not> is_arg (peek [''|'', ''wc''])" by code_simp
  have f2: "tokens_fit (tokens_of ''| wc'')" by code_simp
  have c2: "length ([] :: (string list \<times> string) list) < PROCESS_MAX"
    by (simp add: PROCESS_MAX_def)
  have m2: "length (tokens_of ''| wc'') + length ([] :: (string list \<times> string) list)
      < mallocs_left w0"
    by (simp add: t2 w0_mallocs)
  have d2: "2 * length ([] :: (string list \<times> string) list) \<le> free_fds w0" by simp
  have ne1: "tokens_of ''ls -l | wc |'' \<noteq> []" by (simp add: t1)
  have ne2: "tokens_of ''| wc'' \<noteq> []" by (simp add: t2)
  show ?thesis
    using empty_stage_rejected [OF t1 g1 _ f1 c1 m1 d1]
      empty_stage_rejected [OF t2 g2 n2 f2 c2 m2 d2] ne1 ne2
    by (simp add: same_processes_def)
qed

section \<open>A redirect operator without a file (C7)\<close>

text \<open>
  C7, as amended. If the redirect operator that follows the well-formed stages of a line
  is the last token of the line, \<open>parse_command\<close> fails with \<open>NoOutputFile\<close> (it prints
  \<open>no output file\<close>), and no process is forked.
\<close>

theorem no_output_file:
  assumes toks: "tokens_of cmdline = piped groups @ args @ [r]"
    and groups: "piped_ok groups" and args: "stage_args args"
    and redirect: "is_out_redirect_token (Some r)"
    and fit: "tokens_fit (tokens_of cmdline)" "length groups < PROCESS_MAX"
    and memory: "length (tokens_of cmdline) + length groups < mallocs_left w"
    and fds: "2 * length groups \<le> free_fds w"
  shows "snd (main_iteration w cmdline) = Rejected NoOutputFile \<and>
         same_processes w (fst (main_iteration w cmdline))"
proof -
  have "\<not> is_arg (peek [r])" "\<not> is_pipe_token (peek [r])"
    using redirect by (simp_all add: redirect_not_arg redirect_not_pipe)
  from parse_wiring_shape [OF toks groups args this fit memory fds] obtain w2 ps cur_in where
    "parse_wiring w cmdline = finish_command w2 ps args cur_in [r]"
    by blast
  then have "snd (parse_wiring w cmdline) = Inl NoOutputFile"
    using redirect by (simp add: finish_command_def)
  then show ?thesis
    using parse_wiring_same [of w cmdline]
    by (simp add: main_iteration_rejected main_iteration_world returns_failure_def)
qed

text \<open>
  C7 as stated fails when the token after the redirect operator is an operator token:
  that token is taken as the path. On \<open>ls > | wc\<close> the file \<open>|\<close> is created, no message is
  printed, and \<open>parse_command\<close> goes on to line 357 with the one process \<open>ls\<close>, whose
  output is the file; there it calls \<open>free(tokens)\<close>.
\<close>

theorem operator_as_output_file_counterexample:
  "snd (parse_command w0 ''ls > | wc'') = Inl InvalidFree \<and>
   snd (parse_command w0 ''ls > | wc'') \<noteq> Inl NoOutputFile \<and>
   files w0 ''|'' = None \<and>
   files (fst (parse_command w0 ''ls > | wc'')) ''|'' = Some [] \<and>
   snd (parse_wiring w0 ''ls > | wc'') =
     Inr [\<lparr>argv = [''ls''], fd_in = STDIN_FILENO, fd_out = 3, fd_err = STDERR_FILENO\<rparr>]"
  by code_simp

theorem no_output_file_witness:
  "snd (main_iteration w0 ''ls | wc -l >&'') = Rejected NoOutputFile"
proof -
  have t: "tokens_of ''ls | wc -l >&'' = piped [([''ls''], ''|'')] @ [''wc'', ''-l''] @ [''>&'']"
    by code_simp
  have g: "piped_ok [([''ls''], ''|'')]" by code_simp
  have s: "stage_args [''wc'', ''-l'']" by code_simp
  have r: "is_out_redirect_token (Some ''>&'')" by code_simp
  have f: "tokens_fit (tokens_of ''ls | wc -l >&'')" by code_simp
  have c: "length [([''ls''], ''|'')] < PROCESS_MAX" by (simp add: PROCESS_MAX_def)
  have m: "length (tokens_of ''ls | wc -l >&'') + length [([''ls''], ''|'')] < mallocs_left w0"
    by (simp add: t w0_mallocs)
  have d: "2 * length [([''ls''], ''|'')] \<le> free_fds w0" by (simp add: w0_free_fds)
  show ?thesis
    using no_output_file [OF t g s r f c m d] by simp
qed

section \<open>A pipe after the redirection (C6)\<close>

text \<open>
  C6, as amended. If in a line of well-formed stages the token after the redirect
  operator (the path) is followed by a pipe token, \<open>parse_command\<close> fails: with
  \<open>MislocatedRedirection\<close> (it prints \<open>mislocated output redirection\<close>) when the file
  can be opened, that is, when \<open>open\<close> is permitted on the path and a descriptor is left
  after those of the pipes; with \<open>CannotOpenOutputFile\<close> when it cannot. No process is
  forked.
\<close>

theorem pipe_after_redirection:
  assumes toks: "tokens_of cmdline = piped groups @ args @ r # f # p # rest"
    and groups: "piped_ok groups" and args: "stage_args args"
    and redirect: "is_out_redirect_token (Some r)"
    and pipe: "is_pipe_token (Some p)"
    and fit: "tokens_fit (tokens_of cmdline)" "length groups < PROCESS_MAX"
    and memory: "length (tokens_of cmdline) + length groups < mallocs_left w"
    and fds: "2 * length groups \<le> free_fds w"
  shows "snd (main_iteration w cmdline) =
           Rejected (if may_open w f \<and> 2 * length groups < free_fds w
                     then MislocatedRedirection else CannotOpenOutputFile) \<and>
         same_processes w (fst (main_iteration w cmdline))"
proof -
  have "\<not> is_arg (peek (r # f # p # rest))" "\<not> is_pipe_token (peek (r # f # p # rest))"
    using redirect by (simp_all add: redirect_not_arg redirect_not_pipe)
  from parse_wiring_shape [OF toks groups args this fit memory fds] obtain w2 ps cur_in where
    pc: "parse_wiring w cmdline = finish_command w2 ps args cur_in (r # f # p # rest)"
    and sp: "same_processes w w2"
    and fr: "free_fds w2 = free_fds w - 2 * length groups"
    by blast
  have mo: "may_open w2 f = may_open w f" using sp by (simp add: same_processes_def)
  have opn: "sys_open_trunc w2 f \<noteq> None \<longleftrightarrow> may_open w f \<and> 2 * length groups < free_fds w"
    unfolding sys_open_trunc_left mo fr by auto
  have "snd (parse_wiring w cmdline) =
      Inl (if may_open w f \<and> 2 * length groups < free_fds w
           then MislocatedRedirection else CannotOpenOutputFile)"
  proof (cases "sys_open_trunc w2 f")
    case None
    with opn show ?thesis
      unfolding pc using redirect
      by (simp add: finish_command_def redirect_proc_out_def)
  next
    case (Some x)
    with opn show ?thesis
      unfolding pc using redirect pipe
      by (cases x) (simp add: finish_command_def redirect_proc_out_def)
  qed
  then show ?thesis
    using parse_wiring_same [of w cmdline]
    by (simp add: main_iteration_rejected main_iteration_world returns_failure_def)
qed

text \<open>
  C6 as stated fails for a second redirect token: after the path only a pipe token is
  looked for. On \<open>ls > out.txt > out2.txt\<close> no message is printed; \<open>out.txt\<close> is truncated
  and \<open>parse_command\<close> goes on to line 357 with the one process \<open>ls\<close>, whose output is
  \<open>out.txt\<close> (what follows the path is ignored); there it calls \<open>free(tokens)\<close>.
\<close>

theorem second_redirection_counterexample:
  "snd (parse_command w0 ''ls > out.txt > out2.txt'') = Inl InvalidFree \<and>
   snd (parse_command w0 ''ls > out.txt > out2.txt'') \<noteq> Inl MislocatedRedirection \<and>
   files (fst (parse_command w0 ''ls > out.txt > out2.txt'')) ''out.txt'' = Some [] \<and>
   files (fst (parse_command w0 ''ls > out.txt > out2.txt'')) ''out2.txt'' = None \<and>
   snd (parse_wiring w0 ''ls > out.txt > out2.txt'') =
     Inr [\<lparr>argv = [''ls''], fd_in = STDIN_FILENO, fd_out = 3, fd_err = STDERR_FILENO\<rparr>]"
  by code_simp

definition w_locked :: world where
  \<comment> \<open>the shell of \<open>w0\<close> in a directory where no file can be opened for writing\<close>
  "w_locked = w0\<lparr>may_open := (\<lambda>p. False)\<rparr>"

theorem pipe_after_redirection_witness:
  "snd (main_iteration w0 ''a | b > f |& c'') = Rejected MislocatedRedirection \<and>
   snd (main_iteration w_locked ''a | b > f |& c'') = Rejected CannotOpenOutputFile"
proof -
  have t: "tokens_of ''a | b > f |& c'' =
      piped [([''a''], ''|'')] @ [''b''] @ ''>'' # ''f'' # ''|&'' # [''c'']"
    by code_simp
  have g: "piped_ok [([''a''], ''|'')]" by code_simp
  have s: "stage_args [''b'']" by code_simp
  have r: "is_out_redirect_token (Some ''>'')" by code_simp
  have p: "is_pipe_token (Some ''|&'')" by code_simp
  have f: "tokens_fit (tokens_of ''a | b > f |& c'')" by code_simp
  have c: "length [([''a''], ''|'')] < PROCESS_MAX" by (simp add: PROCESS_MAX_def)
  have m: "length (tokens_of ''a | b > f |& c'') + length [([''a''], ''|'')] < mallocs_left w0"
    by (simp add: t w0_mallocs)
  have d: "2 * length [([''a''], ''|'')] \<le> free_fds w0" by (simp add: w0_free_fds)
  have m': "length (tokens_of ''a | b > f |& c'') + length [([''a''], ''|'')]
      < mallocs_left w_locked"
    by (simp add: t w0_mallocs w_locked_def)
  have fl: "free_fds w_locked = 29" by code_simp
  have d': "2 * length [([''a''], ''|'')] \<le> free_fds w_locked" by (simp add: fl)
  have o: "may_open w0 ''f''" by (simp add: w0_def)
  have o': "\<not> may_open w_locked ''f''" by (simp add: w_locked_def)
  show ?thesis
    using pipe_after_redirection [OF t g s r p f c m d]
      pipe_after_redirection [OF t g s r p f c m' d'] o o'
    by (simp add: w0_free_fds)
qed

section \<open>The file is truncated before the line is rejected (C10)\<close>

text \<open>
  C10. For a line \<open>cmd > file | more\<close> (one well-formed stage, a redirect operator, a path
  and a pipe token) whose tokens fit the arrays and whose file can be opened (\<open>open\<close> is
  permitted and a descriptor is free), \<open>parse_command\<close> fails with
  \<open>MislocatedRedirection\<close> and no process is forked, but in the world it leaves the file
  exists and is empty. (The allocations are assumed to succeed.)
\<close>

theorem file_truncated_before_rejection:
  assumes toks: "tokens_of cmdline = args @ r # f # p # rest"
    and args: "stage_args args"
    and redirect: "is_out_redirect_token (Some r)"
    and pipe: "is_pipe_token (Some p)"
    and fit: "tokens_fit (tokens_of cmdline)"
    and openable: "may_open w f" "0 < free_fds w"
    and memory: "length (tokens_of cmdline) < mallocs_left w"
  shows "snd (main_iteration w cmdline) = Rejected MislocatedRedirection \<and>
         files (fst (main_iteration w cmdline)) f = Some [] \<and>
         same_processes w (fst (main_iteration w cmdline))"
proof -
  let ?tail = "r # f # p # rest"
  have tail: "\<not> is_arg (peek ?tail)" "\<not> is_pipe_token (peek ?tail)"
    using redirect by (simp_all add: redirect_not_arg redirect_not_pipe)
  have toks': "tokens_of cmdline = piped [] @ args @ ?tail" using toks by simp
  have pre: "piped_ok []" "length ([] :: (string list \<times> string) list) < PROCESS_MAX"
    "length (tokens_of cmdline) + length ([] :: (string list \<times> string) list) < mallocs_left w"
    "2 * length ([] :: (string list \<times> string) list) \<le> free_fds w"
    using memory by (simp_all add: piped_ok_def PROCESS_MAX_def)
  from parse_wiring_shape [OF toks' pre(1) args tail fit pre(2,3,4)] obtain w2 ps cur_in where
    pc: "parse_wiring w cmdline = finish_command w2 ps args cur_in ?tail"
    and sp: "same_processes w w2"
    and fr: "free_fds w2 = free_fds w"
    by auto
  have "may_open w2 f" using sp openable(1) by (simp add: same_processes_def)
  with openable(2) fr have "sys_open_trunc w2 f \<noteq> None"
    unfolding sys_open_trunc_left by simp
  then obtain w3 fd where op: "sys_open_trunc w2 f = Some (w3, fd)" by auto
  have res: "parse_wiring w cmdline = (w3, Inl MislocatedRedirection)"
    unfolding pc using redirect pipe by (simp add: finish_command_def redirect_proc_out_def op)
  have "files w3 f = Some []" using op by (rule sys_open_trunc_file)
  then show ?thesis
    using parse_wiring_same [of w cmdline] res
    by (simp add: main_iteration_rejected main_iteration_world returns_failure_def)
qed

theorem file_truncated_before_rejection_witness:
  "files w0 ''out.txt'' = Some ''old contents'' \<and>
   snd (main_iteration w0 ''ls -l > out.txt | wc'') = Rejected MislocatedRedirection \<and>
   files (fst (main_iteration w0 ''ls -l > out.txt | wc'')) ''out.txt'' = Some [] \<and>
   last_pid (fst (main_iteration w0 ''ls -l > out.txt | wc'')) = last_pid w0"
proof -
  have t: "tokens_of ''ls -l > out.txt | wc'' =
      [''ls'', ''-l''] @ ''>'' # ''out.txt'' # ''|'' # [''wc'']"
    by code_simp
  have s: "stage_args [''ls'', ''-l'']" by code_simp
  have r: "is_out_redirect_token (Some ''>'')" by code_simp
  have p: "is_pipe_token (Some ''|'')" by code_simp
  have f: "tokens_fit (tokens_of ''ls -l > out.txt | wc'')" by code_simp
  have o: "may_open w0 ''out.txt''" by (simp add: w0_def)
  have l: "0 < free_fds w0" by (simp add: w0_free_fds)
  have m: "length (tokens_of ''ls -l > out.txt | wc'') < mallocs_left w0"
    by (simp add: t w0_def)
  have old: "files w0 ''out.txt'' = Some ''old contents''" by (simp add: w0_def)
  show ?thesis
    using file_truncated_before_rejection [OF t s r p f o l m] old
    by (simp add: same_processes_def)
qed

section \<open>More arguments than \<open>ARG_MAX\<close>\<close>

lemma read_args_too_many:
  "list_all (\<lambda>t. is_arg (Some t)) args \<Longrightarrow> ARG_MAX' < length acc + length args \<Longrightarrow>
     length acc \<le> ARG_MAX' \<Longrightarrow> read_args acc (args @ rest) = Inl TooManyArguments"
proof (induction args arbitrary: acc)
  case Nil
  then show ?case by simp
next
  case (Cons t ts)
  show ?case
  proof (cases "length acc = ARG_MAX'")
    case True
    with Cons.prems show ?thesis by simp
  next
    case False
    with Cons.prems have 1: "length (acc @ [t]) \<le> ARG_MAX'" by simp
    from Cons.prems have 2: "ARG_MAX' < length (acc @ [t]) + length ts" by simp
    from Cons.prems have 3: "list_all (\<lambda>t. is_arg (Some t)) ts" by simp
    have "read_args (acc @ [t]) (ts @ rest) = Inl TooManyArguments"
      using Cons.IH [OF 3 2 1] .
    with False Cons.prems show ?thesis by simp
  qed
qed

text \<open>
  More than 16 arguments. If, after well-formed stages that are each followed by a pipe
  token, more than \<open>ARG_MAX\<close> argument tokens follow one another, \<open>parse_command\<close> fails
  with \<open>TooManyArguments\<close> (it prints \<open>too many process arguments\<close>), and no process is
  forked.
\<close>

theorem too_many_arguments:
  assumes toks: "tokens_of cmdline = piped groups @ args @ rest"
    and groups: "piped_ok groups"
    and args: "list_all (\<lambda>t. is_arg (Some t)) args" "ARG_MAX' < length args"
    and fit: "tokens_fit (tokens_of cmdline)" "length groups < PROCESS_MAX"
    and memory: "length (tokens_of cmdline) + length groups < mallocs_left w"
    and fds: "2 * length groups \<le> free_fds w"
  shows "snd (main_iteration w cmdline) = Rejected TooManyArguments \<and>
         same_processes w (fst (main_iteration w cmdline))"
proof -
  let ?toks = "tokens_of cmdline"
  define w1 where "w1 = w\<lparr>mallocs_left := mallocs_left w - Suc (length ?toks)\<rparr>"
  have ne: "?toks \<noteq> []"
    using toks args(2) by auto
  have pc: "parse_wiring w cmdline =
           (case parse_stages w1 0 STDIN_FILENO ?toks of
              (w2, Inl e) \<Rightarrow> (w2, Inl e)
            | (w2, Inr (ps, args, cur_in, tok_iter)) \<Rightarrow>
                finish_command w2 ps args cur_in tok_iter)"
    using parse_wiring_unfold [OF ne fit(1)] memory by (simp add: w1_def)
  have pre: "0 + length groups < PROCESS_MAX" "length groups \<le> mallocs_left w1"
    "2 * length groups \<le> free_fds w1"
    using fit(2) memory fds by (simp_all add: w1_def free_fds_def)
  have "read_argv (args @ rest) = Inl TooManyArguments"
    using read_args_too_many [OF args(1), of "[]" rest] args(2) by (simp add: read_argv_def)
  then have stop: "parse_stages w' k c (args @ rest) = (w', Inl TooManyArguments)" for w' k c
    by (rule parse_stages_error)
  from parse_stages_piped [OF groups pre, of STDIN_FILENO "args @ rest"]
  obtain w2 where "parse_stages w1 0 STDIN_FILENO ?toks = (w2, Inl TooManyArguments)"
    unfolding toks by (auto simp: stop)
  with pc have "snd (parse_wiring w cmdline) = Inl TooManyArguments" by simp
  then show ?thesis
    using parse_wiring_same [of w cmdline]
    by (simp add: main_iteration_rejected main_iteration_world returns_failure_def)
qed

theorem too_many_arguments_witness:
  "snd (main_iteration w0 ''ls | echo a b c d e f g h i j k l m n o p > f'') =
     Rejected TooManyArguments"
proof -
  let ?l = "''ls | echo a b c d e f g h i j k l m n o p > f''"
  let ?args = "''echo'' # map (\<lambda>c. [c]) ''abcdefghijklmnop''"
  have t: "tokens_of ?l = piped [([''ls''], ''|'')] @ ?args @ [''>'', ''f'']"
    by code_simp
  have g: "piped_ok [([''ls''], ''|'')]" by code_simp
  have a: "list_all (\<lambda>t. is_arg (Some t)) ?args" by code_simp
  have n: "ARG_MAX' < length ?args" by (simp add: ARG_MAX'_def)
  have f: "tokens_fit (tokens_of ?l)" by code_simp
  have c: "length [([''ls''], ''|'')] < PROCESS_MAX" by (simp add: PROCESS_MAX_def)
  have m: "length (tokens_of ?l) + length [([''ls''], ''|'')] < mallocs_left w0"
    by (simp add: t w0_mallocs)
  have d: "2 * length [([''ls''], ''|'')] \<le> free_fds w0" by (simp add: w0_free_fds)
  show ?thesis
    using too_many_arguments [OF t g a n f c m d] by simp
qed

section \<open>Pipes between adjacent stages (C4)\<close>



section \<open>The descriptors that a child has closed (C1)\<close>







section \<open>Tokens that do not fit the token buffer\<close>

text \<open>
  A token of 31 characters fits \<open>token_buf\<close> with its terminator, and \<open>parse_command\<close>
  goes on with it (to line 357, on a line that is well formed). A token of 32 characters
  does not fit: \<open>read_next_token\<close> writes its terminator beyond the end of \<open>token_buf\<close>, and
  \<open>strcpy\<close> beyond the end of the buffer that \<open>malloc(TOKEN_MAX)\<close> has returned, whatever
  follows the token on the line. There is no check of the length of a token in the
  source.
\<close>

theorem long_token_overrun:
  "snd (main_iteration w0 (replicate 31 CHR ''a'')) = Stopped InvalidFree \<and>
   snd (main_iteration w0 (replicate 31 CHR ''a'' @ '' |'')) = Rejected MissingCommand \<and>
   snd (main_iteration w0 (replicate 32 CHR ''a'')) = Stopped TokenBufOverrun \<and>
   snd (main_iteration w0 (replicate 32 CHR ''a'' @ '' |'')) = Stopped TokenBufOverrun"
  by code_simp

end
